theory Spec2Isabelle
  imports Complex_Main "HOL-Library.Log_Nat"
begin

section \<open>JavaScript values\<close>

text \<open>
  A JavaScript number is modelled by its value: a finite real, one of the two infinities,
  or NaN. The two zeros are identified, a zero divisor being read as \<open>+0\<close>.
\<close>

datatype jsnum = Fin real | PosInf | NegInf | NaN

text \<open>
  The result of an arithmetic operation is the binary64 number nearest to the exact
  result, the one with the even significand at a tie. \<open>exponent x\<close> is the \<open>E\<close> with
  \<open>2 ^ E \<le> |x| < 2 ^ (E + 1)\<close>; the binary64 numbers of that binade are the multiples of
  \<open>2 ^ (E - 52)\<close>, those below \<open>2 ^ - 1022\<close> the multiples of \<open>2 ^ - 1074\<close>; a result
  that rounds to \<open>2 ^ 1024\<close> or beyond is an infinity.
\<close>

definition pow2 :: "int \<Rightarrow> real" where
  "pow2 e = (if 0 \<le> e then 2 ^ nat e else 1 / 2 ^ nat (- e))"

definition exponent :: "real \<Rightarrow> int" where
  "exponent x =
     (if 1 \<le> \<bar>x\<bar> then bitlen \<lfloor>\<bar>x\<bar>\<rfloor> - 1 else - bitlen (\<lceil>1 / \<bar>x\<bar>\<rceil> - 1))"

definition round_even :: "real \<Rightarrow> int" where
  "round_even y =
     (let f = \<lfloor>y\<rfloor>; d = y - of_int f
      in if d < 1 / 2 then f else if 1 / 2 < d then f + 1 else if even f then f else f + 1)"

definition fl :: "real \<Rightarrow> jsnum" where
  "fl x =
     (let e = max (exponent x) (- 1022) - 52;
          r = round_even (x / pow2 e)
      in if 1025 \<le> bitlen \<bar>r\<bar> + e then (if 0 < r then PosInf else NegInf)
         else Fin (of_int r * pow2 e))"

text \<open>The binary64 number a decimal literal denotes (0 where the literal is out of range).\<close>

definition double :: "real \<Rightarrow> real" where
  "double x = (case fl x of Fin y \<Rightarrow> y | _ \<Rightarrow> 0)"

fun js_div :: "jsnum \<Rightarrow> jsnum \<Rightarrow> jsnum" where
  "js_div NaN y = NaN"
| "js_div x NaN = NaN"
| "js_div (Fin a) (Fin b) =
     (if b \<noteq> 0 then fl (a / b) else if a = 0 then NaN else if 0 < a then PosInf else NegInf)"
| "js_div (Fin a) PosInf = Fin 0"
| "js_div (Fin a) NegInf = Fin 0"
| "js_div PosInf (Fin b) = (if 0 \<le> b then PosInf else NegInf)"
| "js_div NegInf (Fin b) = (if 0 \<le> b then NegInf else PosInf)"
| "js_div PosInf PosInf = NaN"
| "js_div PosInf NegInf = NaN"
| "js_div NegInf PosInf = NaN"
| "js_div NegInf NegInf = NaN"

fun js_add :: "jsnum \<Rightarrow> jsnum \<Rightarrow> jsnum" where
  "js_add NaN y = NaN"
| "js_add x NaN = NaN"
| "js_add (Fin a) (Fin b) = fl (a + b)"
| "js_add (Fin a) PosInf = PosInf"
| "js_add (Fin a) NegInf = NegInf"
| "js_add PosInf (Fin b) = PosInf"
| "js_add NegInf (Fin b) = NegInf"
| "js_add PosInf PosInf = PosInf"
| "js_add NegInf NegInf = NegInf"
| "js_add PosInf NegInf = NaN"
| "js_add NegInf PosInf = NaN"

fun js_mul :: "jsnum \<Rightarrow> jsnum \<Rightarrow> jsnum" where
  "js_mul NaN y = NaN"
| "js_mul x NaN = NaN"
| "js_mul (Fin a) (Fin b) = fl (a * b)"
| "js_mul (Fin a) PosInf = (if a = 0 then NaN else if 0 < a then PosInf else NegInf)"
| "js_mul (Fin a) NegInf = (if a = 0 then NaN else if 0 < a then NegInf else PosInf)"
| "js_mul PosInf (Fin b) = (if b = 0 then NaN else if 0 < b then PosInf else NegInf)"
| "js_mul NegInf (Fin b) = (if b = 0 then NaN else if 0 < b then NegInf else PosInf)"
| "js_mul PosInf PosInf = PosInf"
| "js_mul NegInf NegInf = PosInf"
| "js_mul PosInf NegInf = NegInf"
| "js_mul NegInf PosInf = NegInf"

text \<open>\<^verbatim>\<open>Math.floor\<close>: the greatest integer not above the argument; non-finite arguments
  are returned unchanged.\<close>

fun js_floor :: "jsnum \<Rightarrow> jsnum" where
  "js_floor (Fin a) = Fin (of_int \<lfloor>a\<rfloor>)"
| "js_floor x = x"

text \<open>\<^verbatim>\<open>x >= y\<close> on numbers: false as soon as one side is NaN.\<close>

fun js_ge :: "jsnum \<Rightarrow> jsnum \<Rightarrow> bool" where
  "js_ge NaN y = False"
| "js_ge x NaN = False"
| "js_ge (Fin a) (Fin b) = (b \<le> a)"
| "js_ge PosInf y = True"
| "js_ge x NegInf = True"
| "js_ge (Fin a) PosInf = False"
| "js_ge NegInf y = False"

definition is_finite :: "jsnum \<Rightarrow> bool" where
  "is_finite x = (case x of Fin a \<Rightarrow> True | _ \<Rightarrow> False)"

subsection \<open>Numbers as strings\<close>

definition digit_char :: "nat \<Rightarrow> char" where
  "digit_char d = ''0123456789'' ! d"

fun digits :: "nat \<Rightarrow> string" where
  "digits n = (if n < 10 then [digit_char n] else digits (n div 10) @ [digit_char (n mod 10)])"

declare digits.simps [simp del]

definition show_int :: "int \<Rightarrow> string" where
  "show_int i = (if i < 0 then CHR ''-'' # digits (nat (- i)) else digits (nat i))"

text \<open>
  \<^verbatim>\<open>`${x}`\<close> for a number \<open>x\<close>. The program only formats results of \<^verbatim>\<open>Math.floor\<close> and
  HTTP status codes, which are integral, and an integer up to \<open>2 ^ 53\<close> in magnitude is
  written in decimal. Beyond \<open>2 ^ 53\<close> JavaScript writes the shortest digits that read
  back as the same number, the last of them left to the implementation, and in exponent
  form from \<open>1e21\<close> on; these strings are not modelled, the decimal form stands for them:
  as they do, it determines the number, which is all the grouping of the records depends
  on.
\<close>

fun number_to_string :: "jsnum \<Rightarrow> string" where
  "number_to_string (Fin a) = show_int \<lfloor>a\<rfloor>"
| "number_to_string PosInf = ''Infinity''"
| "number_to_string NegInf = ''-Infinity''"
| "number_to_string NaN = ''NaN''"

section \<open>Grid aggregation\<close>

text \<open>
  A sanitized occurrence as built by \<^verbatim>\<open>fetchOccurrencesForSpecies\<close>. The coordinates are
  numbers; the other fields are carried along untouched.
\<close>

datatype jsval = JUndefined | JNull | JBool bool | JNum jsnum | JStr string | JObject

record occurrence =
  o_key :: jsval
  lat :: jsnum
  lng :: jsnum
  o_year :: jsval
  o_country :: jsval
  o_stateProvince :: jsval

text \<open>
  The object stored in the \<^verbatim>\<open>Map\<close> under a cell key. Its \<^verbatim>\<open>samples\<close> array is of type
  \<open>'s\<close>: the list of its elements where the program is read as a function from values to
  values, the address of the array where the arrays live in an explicit store.
\<close>

record 's cell =
  latIdx :: jsnum
  lngIdx :: jsnum
  count :: nat
  samples :: 's

text \<open>
  The \<^verbatim>\<open>Map\<close> keeps its entries in the order in which their keys were first set;
  setting an existing key replaces the value in place.
\<close>

type_synonym 's grid = "(string \<times> 's cell) list"

definition grid_get :: "'s grid \<Rightarrow> string \<Rightarrow> 's cell option" where
  "grid_get g k = map_of g k"

fun grid_set :: "'s grid \<Rightarrow> string \<Rightarrow> 's cell \<Rightarrow> 's grid" where
  "grid_set [] k v = [(k, v)]"
| "grid_set ((k', v') # g) k v = (if k' = k then (k, v) # g else (k', v') # grid_set g k v)"

record thresholds =
  high :: jsnum
  medium :: jsnum

datatype risk = Low | Medium | High

record 's gridcell =
  cell_id :: string
  cell_lat :: jsnum
  cell_lng :: jsnum
  cell_count :: nat
  cell_risk :: risk
  cell_samples :: 's

record summary =
  totalRecords :: nat
  cellCount :: nat
  highCount :: nat
  medCount :: nat
  lowCount :: nat

record 's aggregation =
  cells :: "'s gridcell list"
  summary :: summary

definition cell_key :: "jsnum \<Rightarrow> occurrence \<Rightarrow> string" where
  "cell_key cellSizeDeg occ =
     number_to_string (js_floor (js_div (lat occ) cellSizeDeg)) @ ''_'' @
     number_to_string (js_floor (js_div (lng occ) cellSizeDeg))"

text \<open>The body of \<^verbatim>\<open>occurrences.forEach\<close>.\<close>

definition add_occurrence ::
  "jsnum \<Rightarrow> occurrence list grid \<Rightarrow> occurrence \<Rightarrow> occurrence list grid" where
  "add_occurrence cellSizeDeg g occ =
     (let latIdx = js_floor (js_div (lat occ) cellSizeDeg);
          lngIdx = js_floor (js_div (lng occ) cellSizeDeg);
          key = number_to_string latIdx @ ''_'' @ number_to_string lngIdx;
          c = (case grid_get g key of
                 Some c \<Rightarrow> c
               | None \<Rightarrow> \<lparr>latIdx = latIdx, lngIdx = lngIdx, count = 0, samples = []\<rparr>);
          c' = c\<lparr>count := count c + 1, samples := samples c @ [occ]\<rparr>
      in grid_set g key c')"

definition build_grid :: "jsnum \<Rightarrow> occurrence list \<Rightarrow> occurrence list grid" where
  "build_grid cellSizeDeg occurrences = foldl (add_occurrence cellSizeDeg) [] occurrences"

text \<open>The body of the loop over \<^verbatim>\<open>grid.entries()\<close>; the loop state is the
  tuple of \<^verbatim>\<open>cells\<close>, \<^verbatim>\<open>highCount\<close>, \<^verbatim>\<open>medCount\<close> and \<^verbatim>\<open>lowCount\<close>.\<close>

fun emit_cell ::
  "jsnum \<Rightarrow> thresholds \<Rightarrow> 's gridcell list \<times> nat \<times> nat \<times> nat \<Rightarrow> string \<times> 's cell \<Rightarrow>
   's gridcell list \<times> nat \<times> nat \<times> nat" where
  "emit_cell cellSizeDeg th (cs, hc, mc, lc) (ident, c) =
     (let (risk, hc', mc', lc') =
            (if js_ge (Fin (real (count c))) (high th) then (High, hc + 1, mc, lc)
             else if js_ge (Fin (real (count c))) (medium th) then (Medium, hc, mc + 1, lc)
             else (Low, hc, mc, lc + 1));
          latCenter = js_mul (js_add (latIdx c) (Fin 0.5)) cellSizeDeg;
          lngCenter = js_mul (js_add (lngIdx c) (Fin 0.5)) cellSizeDeg
      in (cs @ [\<lparr>cell_id = ident, cell_lat = latCenter, cell_lng = lngCenter,
                 cell_count = count c, cell_risk = risk, cell_samples = samples c\<rparr>],
          hc', mc', lc'))"

text \<open>The second loop and the returned object, given the grid and \<^verbatim>\<open>occurrences.length\<close>.\<close>

definition emit_result :: "jsnum \<Rightarrow> thresholds \<Rightarrow> nat \<Rightarrow> 's grid \<Rightarrow> 's aggregation" where
  "emit_result cellSizeDeg th len g =
     (case foldl (emit_cell cellSizeDeg th) ([], 0, 0, 0) g of
        (cs, hc, mc, lc) \<Rightarrow>
          \<lparr>cells = cs,
           summary = \<lparr>totalRecords = len, cellCount = length cs,
                      highCount = hc, medCount = mc, lowCount = lc\<rparr>\<rparr>)"

definition computeGridCells ::
  "occurrence list \<Rightarrow> jsnum \<Rightarrow> thresholds \<Rightarrow> occurrence list aggregation" where
  "computeGridCells occurrences cellSizeDeg th =
     emit_result cellSizeDeg th (length occurrences) (build_grid cellSizeDeg occurrences)"

section \<open>Grid aggregation with the arrays in a store\<close>

text \<open>
  The same function with its arrays kept in an explicit store, so that what
  \<^verbatim>\<open>cell.samples.push(o)\<close> writes, and what it leaves alone, can be stated. An array is
  named by its address; \<open>fresh\<close> is the next unused address, and every array literal
  \<^verbatim>\<open>[]\<close> takes it. The argument \<^verbatim>\<open>occurrences\<close> is the address of the input array, which
  \<^verbatim>\<open>forEach\<close> reads element by element from the current store. The occurrence objects
  are never written by this function and stay values.
\<close>

record store =
  arrays :: "nat \<Rightarrow> occurrence list"
  fresh :: nat

definition add_occurrence_store ::
  "jsnum \<Rightarrow> nat \<Rightarrow> store \<times> nat grid \<Rightarrow> nat \<Rightarrow> store \<times> nat grid" where
  "add_occurrence_store cellSizeDeg occurrences st i =
     (case st of (h, g) \<Rightarrow>
      let occ = arrays h occurrences ! i;
          latIdx = js_floor (js_div (lat occ) cellSizeDeg);
          lngIdx = js_floor (js_div (lng occ) cellSizeDeg);
          key = number_to_string latIdx @ ''_'' @ number_to_string lngIdx;
          (h1, c) = (case grid_get g key of
                       Some c \<Rightarrow> (h, c)
                     | None \<Rightarrow>
                         (h\<lparr>arrays := (arrays h)(fresh h := []), fresh := Suc (fresh h)\<rparr>,
                          \<lparr>latIdx = latIdx, lngIdx = lngIdx, count = 0, samples = fresh h\<rparr>));
          c' = c\<lparr>count := count c + 1\<rparr>;
          h2 = h1\<lparr>arrays := (arrays h1)(samples c' := arrays h1 (samples c') @ [occ])\<rparr>
      in (h2, grid_set g key c'))"

definition computeGridCells_store ::
  "store \<Rightarrow> nat \<Rightarrow> jsnum \<Rightarrow> thresholds \<Rightarrow> nat aggregation \<times> store" where
  "computeGridCells_store h occurrences cellSizeDeg th =
     (case foldl (add_occurrence_store cellSizeDeg occurrences) (h, [])
             [0..<length (arrays h occurrences)] of
        (h', g) \<Rightarrow> (emit_result cellSizeDeg th (length (arrays h' occurrences)) g, h'))"

text \<open>What a result holds once its \<^verbatim>\<open>samples\<close> arrays are read from the store.\<close>

definition contents :: "store \<Rightarrow> nat aggregation \<Rightarrow> occurrence list aggregation" where
  "contents h r =
     \<lparr>cells = map (\<lambda>c. \<lparr>cell_id = cell_id c, cell_lat = cell_lat c, cell_lng = cell_lng c,
                          cell_count = cell_count c, cell_risk = cell_risk c,
                          cell_samples = arrays h (cell_samples c)\<rparr>) (cells r),
      summary = summary r\<rparr>"

section \<open>Fetching occurrences\<close>

definition PAGE_LIMIT :: nat where
  "PAGE_LIMIT = 300"

definition MAX_PER_SPECIES :: nat where
  "MAX_PER_SPECIES = 2000"

datatype jstype = TUndefined | TObject | TBoolean | TNumber | TString

fun typeof :: "jsval \<Rightarrow> jstype" where
  "typeof JUndefined = TUndefined"
| "typeof JNull = TObject"
| "typeof (JBool b) = TBoolean"
| "typeof (JNum x) = TNumber"
| "typeof (JStr s) = TString"
| "typeof JObject = TObject"

text \<open>
  A raw occurrence object of a page; a field the object lacks reads as \<open>JUndefined\<close>.
  The elements of \<^verbatim>\<open>results\<close> are objects, as the interface of the source has it (reading
  a property of a \<^verbatim>\<open>null\<close> element would throw).
\<close>

record raw =
  key :: jsval
  decimalLatitude :: jsval
  decimalLongitude :: jsval
  year :: jsval
  country :: jsval
  stateProvince :: jsval

text \<open>
  The parsed body of a response: \<open>results\<close> is \<open>None\<close> when \<^verbatim>\<open>data.results\<close> is not an
  array, \<open>endOfRecords\<close> is the truthiness of \<^verbatim>\<open>data.endOfRecords\<close>.
\<close>

record data =
  results :: "raw list option"
  endOfRecords :: bool

text \<open>
  What \<^verbatim>\<open>fetch\<close> resolves to. \<open>body\<close> is \<open>None\<close> when \<^verbatim>\<open>res.json()\<close> rejects or yields
  \<^verbatim>\<open>null\<close>, in which case reading \<^verbatim>\<open>data.results\<close> throws.
\<close>

record response =
  ok :: bool
  status :: nat
  statusText :: string
  body :: "data option"

text \<open>
  The remote source answers a request, which is determined by the scientific name and the
  offset (the rest of the URL is constant but for the year read from the clock); \<open>None\<close>
  is a rejected \<^verbatim>\<open>fetch\<close>. Within one call the offsets requested strictly increase, so a
  function of the offset covers every sequence of replies.
\<close>

type_synonym remote = "string \<Rightarrow> nat \<Rightarrow> response option"

datatype error = Error string | FetchRejected | BodyRejected

text \<open>The number held by a value; the program reads it only from values that passed the
  \<^verbatim>\<open>typeof\<close> test.\<close>

fun num_of :: "jsval \<Rightarrow> jsnum" where
  "num_of (JNum x) = x"
| "num_of v = NaN"

definition has_coordinates :: "raw \<Rightarrow> bool" where
  "has_coordinates r \<longleftrightarrow>
     typeof (decimalLatitude r) = TNumber \<and> typeof (decimalLongitude r) = TNumber"

definition sanitize :: "raw \<Rightarrow> occurrence" where
  "sanitize r =
     \<lparr>o_key = key r, lat = num_of (decimalLatitude r), lng = num_of (decimalLongitude r),
      o_year = year r, o_country = country r, o_stateProvince = stateProvince r\<rparr>"

definition clean :: "raw list \<Rightarrow> occurrence list" where
  "clean pageResults = map sanitize (filter has_coordinates pageResults)"

definition page_results :: "data \<Rightarrow> raw list" where
  "page_results d = (case results d of Some rs \<Rightarrow> rs | None \<Rightarrow> [])"

definition failure_message :: "response \<Rightarrow> string" where
  "failure_message res =
     ''GBIF request failed ('' @ show_int (int (status res)) @ ''): '' @ statusText res"

text \<open>
  The \<^verbatim>\<open>while\<close> loop. It need not end (a source may go on sending pages none of whose
  records has coordinates), so the result is an option and \<open>None\<close> is a run without end.
  Besides the value returned or thrown, the function gives the offsets of the requests it
  sent, in order; \<open>sent\<close> is not a variable of the program.
\<close>

partial_function (option) fetch_loop ::
  "remote \<Rightarrow> string \<Rightarrow> nat \<Rightarrow> occurrence list \<Rightarrow> nat \<Rightarrow> nat list \<Rightarrow>
   ((error + occurrence list) \<times> nat list) option" where
  "fetch_loop remote scientificName maxRecords all offset sent =
     (if length all < maxRecords then
        (case remote scientificName offset of
           None \<Rightarrow> Some (Inl FetchRejected, sent @ [offset])
         | Some res \<Rightarrow>
             if \<not> ok res then Some (Inl (Error (failure_message res)), sent @ [offset])
             else
               (case body res of
                  None \<Rightarrow> Some (Inl BodyRejected, sent @ [offset])
                | Some d \<Rightarrow>
                    if endOfRecords d \<or> length (page_results d) = 0
                    then Some (Inr (all @ clean (page_results d)), sent @ [offset])
                    else fetch_loop remote scientificName maxRecords
                           (all @ clean (page_results d)) (offset + PAGE_LIMIT) (sent @ [offset])))
      else Some (Inr all, sent))"

declare fetch_loop.simps [code]

definition fetchOccurrencesForSpecies ::
  "remote \<Rightarrow> string \<Rightarrow> nat \<Rightarrow> ((error + occurrence list) \<times> nat list) option" where
  "fetchOccurrencesForSpecies remote scientificName maxRecords =
     (case fetch_loop remote scientificName maxRecords [] 0 [] of
        None \<Rightarrow> None
      | Some (Inl e, sent) \<Rightarrow> Some (Inl e, sent)
      | Some (Inr all, sent) \<Rightarrow> Some (Inr (take maxRecords all), sent))"

subsection \<open>Pagination as the specification words it\<close>

text \<open>
  The specification describes the run page by page. \<open>page k\<close> is the body of the
  \<open>k\<close>-th page when its request succeeds, \<open>accumulated k\<close> the sanitized records of the
  first \<open>k\<close> pages, and \<open>stops_after k\<close> the stop condition after page \<open>k\<close>: the
  accumulated count has reached \<open>maxRecords\<close>, or the source signals the end of the
  records, or the page has no raw result. \<open>continues_after k\<close> is a successful page after
  which none of the three holds. \<open>offsets n\<close> are the offsets of the first \<open>n\<close> requests.
\<close>

definition page :: "remote \<Rightarrow> string \<Rightarrow> nat \<Rightarrow> data option" where
  "page remote scientificName k =
     (case remote scientificName (k * PAGE_LIMIT) of
        None \<Rightarrow> None
      | Some res \<Rightarrow> if ok res then body res else None)"

fun accumulated :: "remote \<Rightarrow> string \<Rightarrow> nat \<Rightarrow> occurrence list" where
  "accumulated remote scientificName 0 = []"
| "accumulated remote scientificName (Suc k) =
     accumulated remote scientificName k @
     (case page remote scientificName k of None \<Rightarrow> [] | Some d \<Rightarrow> clean (page_results d))"

definition stops_after :: "remote \<Rightarrow> string \<Rightarrow> nat \<Rightarrow> nat \<Rightarrow> bool" where
  "stops_after remote scientificName maxRecords k =
     (case page remote scientificName k of
        None \<Rightarrow> False
      | Some d \<Rightarrow>
          maxRecords \<le> length (accumulated remote scientificName (Suc k)) \<or>
          endOfRecords d \<or> page_results d = [])"

definition continues_after :: "remote \<Rightarrow> string \<Rightarrow> nat \<Rightarrow> nat \<Rightarrow> bool" where
  "continues_after remote scientificName maxRecords k =
     (case page remote scientificName k of
        None \<Rightarrow> False
      | Some d \<Rightarrow>
          length (accumulated remote scientificName (Suc k)) < maxRecords \<and>
          \<not> endOfRecords d \<and> page_results d \<noteq> [])"

definition offsets :: "nat \<Rightarrow> nat list" where
  "offsets n = map (\<lambda>k. k * PAGE_LIMIT) [0..<n]"

text \<open>
  \<open>raw_records k\<close> are the raw records of the first \<open>k\<close> pages, in the order received, and
  a raw record has numeric coordinates when its latitude and its longitude are both
  present and numbers.
\<close>

fun raw_records :: "remote \<Rightarrow> string \<Rightarrow> nat \<Rightarrow> raw list" where
  "raw_records remote scientificName 0 = []"
| "raw_records remote scientificName (Suc k) =
     raw_records remote scientificName k @
     (case page remote scientificName k of None \<Rightarrow> [] | Some d \<Rightarrow> page_results d)"

fun is_number :: "jsval \<Rightarrow> bool" where
  "is_number (JNum x) = True"
| "is_number v = False"

definition numeric_coordinates :: "raw \<Rightarrow> bool" where
  "numeric_coordinates r \<longleftrightarrow> is_number (decimalLatitude r) \<and> is_number (decimalLongitude r)"

section \<open>Notions used in the proofs\<close>

definition digit_set :: "char set" where
  "digit_set = set ''0123456789''"

text \<open>What the grid holds under key \<open>k\<close> once the records \<open>xs\<close> have been added.\<close>

definition entry_of :: "jsnum \<Rightarrow> occurrence list \<Rightarrow> string \<Rightarrow> occurrence list cell \<Rightarrow> bool" where
  "entry_of cellSizeDeg xs k c \<longleftrightarrow>
     samples c = filter (\<lambda>x. cell_key cellSizeDeg x = k) xs \<and>
     count c = length (samples c) \<and>
     (\<exists>x \<in> set xs. cell_key cellSizeDeg x = k \<and>
        latIdx c = js_floor (js_div (lat x) cellSizeDeg) \<and>
        lngIdx c = js_floor (js_div (lng x) cellSizeDeg))"

definition grid_inv :: "jsnum \<Rightarrow> occurrence list \<Rightarrow> occurrence list grid \<Rightarrow> bool" where
  "grid_inv cellSizeDeg xs g \<longleftrightarrow>
     distinct (map fst g) \<and> fst ` set g = cell_key cellSizeDeg ` set xs \<and>
     (\<forall>k c. map_of g k = Some c \<longrightarrow> entry_of cellSizeDeg xs k c)"

definition tier :: "thresholds \<Rightarrow> 's cell \<Rightarrow> risk" where
  "tier th c =
     (if js_ge (Fin (real (count c))) (high th) then High
      else if js_ge (Fin (real (count c))) (medium th) then Medium
      else Low)"

definition out_cell :: "jsnum \<Rightarrow> thresholds \<Rightarrow> string \<times> 's cell \<Rightarrow> 's gridcell" where
  "out_cell cellSizeDeg th e =
     \<lparr>cell_id = fst e,
      cell_lat = js_mul (js_add (latIdx (snd e)) (Fin 0.5)) cellSizeDeg,
      cell_lng = js_mul (js_add (lngIdx (snd e)) (Fin 0.5)) cellSizeDeg,
      cell_count = count (snd e), cell_risk = tier th (snd e), cell_samples = samples (snd e)\<rparr>"

definition deref_cell :: "store \<Rightarrow> nat cell \<Rightarrow> occurrence list cell" where
  "deref_cell h c =
     \<lparr>latIdx = latIdx c, lngIdx = lngIdx c, count = count c, samples = arrays h (samples c)\<rparr>"

definition deref_grid :: "store \<Rightarrow> nat grid \<Rightarrow> occurrence list grid" where
  "deref_grid h g = map (\<lambda>e. (fst e, deref_cell h (snd e))) g"

text \<open>
  The store \<open>h\<close> and grid \<open>g\<close> reached from the store \<open>h0\<close>: nothing allocated in \<open>h0\<close>
  has changed, and the cells own distinct arrays allocated since.
\<close>

definition store_inv :: "store \<Rightarrow> store \<Rightarrow> nat grid \<Rightarrow> bool" where
  "store_inv h0 h g \<longleftrightarrow>
     fresh h0 \<le> fresh h \<and> (\<forall>b < fresh h0. arrays h b = arrays h0 b) \<and>
     distinct (map (\<lambda>e. samples (snd e)) g) \<and>
     (\<forall>e \<in> set g. fresh h0 \<le> samples (snd e) \<and> samples (snd e) < fresh h)"

text \<open>The occurrence is the sanitized form of a raw record, with numeric coordinates, of
  a successful page among the requests \<open>sent\<close>.\<close>

definition from_page :: "remote \<Rightarrow> string \<Rightarrow> nat list \<Rightarrow> occurrence \<Rightarrow> bool" where
  "from_page remote name sent occ \<longleftrightarrow>
     (\<exists>off \<in> set sent. \<exists>res d. remote name off = Some res \<and> ok res \<and> body res = Some d \<and>
        (\<exists>r \<in> set (page_results d).
           decimalLatitude r = JNum (lat occ) \<and> decimalLongitude r = JNum (lng occ) \<and>
           occ = sanitize r))"

section \<open>Example inputs\<close>

text \<open>The occurrence whose coordinates are written \<open>a\<close> and \<open>b\<close> in decimal.\<close>

definition point :: "real \<Rightarrow> real \<Rightarrow> occurrence" where
  "point a b =
     \<lparr>o_key = JUndefined, lat = Fin (double a), lng = Fin (double b),
      o_year = JUndefined, o_country = JUndefined, o_stateProvince = JUndefined\<rparr>"

text \<open>\<^verbatim>\<open>INVASIVENESS_THRESHOLDS\<close> of \<^verbatim>\<open>App.jsx\<close>, also the default of \<^verbatim>\<open>computeGridCells\<close>.\<close>

definition INVASIVENESS_THRESHOLDS :: thresholds where
  "INVASIVENESS_THRESHOLDS = \<lparr>high = Fin 30, medium = Fin 10\<rparr>"

definition tier_input :: "occurrence list" where
  "tier_input =
     replicate 30 (point 35.4 (-120.9)) @ replicate 10 (point 36.2 (-120.9)) @
     replicate 9 (point 37.5 (-120.1))"

definition tier_cells :: "occurrence list gridcell list" where
  "tier_cells = cells (computeGridCells tier_input (Fin 1) \<lparr>high = Fin 30, medium = Fin 10\<rparr>)"

definition mixed_input :: "occurrence list" where
  "mixed_input = [point 35.4 (-120.9), point 36.2 (-120.9), point 35.7 (-120.2)]"

definition mixed_cells :: "occurrence list gridcell list" where
  "mixed_cells = cells (computeGridCells mixed_input (Fin 1) INVASIVENESS_THRESHOLDS)"

definition example_store :: store where
  "example_store = \<lparr>arrays = (\<lambda>a. if a = 0 then mixed_input else []), fresh = 1\<rparr>"

definition first_run :: "nat aggregation \<times> store" where
  "first_run = computeGridCells_store example_store 0 (Fin 1) INVASIVENESS_THRESHOLDS"

definition second_run :: "nat aggregation \<times> store" where
  "second_run = computeGridCells_store (snd first_run) 0 (Fin 1) INVASIVENESS_THRESHOLDS"

text \<open>The record at \<^verbatim>\<open>(35.4, -120.9)\<close>, and one at \<^verbatim>\<open>(0.03, 0.03)\<close> for cells of size
  \<^verbatim>\<open>0.01\<close>, the coordinates being the binary64 numbers these literals denote.\<close>

definition coast :: occurrence where
  "coast = point 35.4 (- 120.9)"

definition fine_point :: occurrence where
  "fine_point = point 0.03 0.03"

definition raw_point :: "jsval \<Rightarrow> jsval \<Rightarrow> raw" where
  "raw_point a b =
     \<lparr>key = JNum (Fin 1), decimalLatitude = a, decimalLongitude = b,
      year = JNum (Fin 2023), country = JStr ''US'', stateProvince = JUndefined\<rparr>"

definition located :: raw where
  "located = raw_point (JNum (Fin (double 35.4))) (JNum (Fin (double (- 120.9))))"

definition ok_response :: "raw list \<Rightarrow> bool \<Rightarrow> response" where
  "ok_response rs eor =
     \<lparr>ok = True, status = 200, statusText = ''OK'',
      body = Some \<lparr>results = Some rs, endOfRecords = eor\<rparr>\<rparr>"

definition unavailable :: response where
  "unavailable = \<lparr>ok = False, status = 503, statusText = ''Service Unavailable'', body = None\<rparr>"

definition keyed :: "nat \<Rightarrow> raw" where
  "keyed n =
     \<lparr>key = JNum (Fin (real n)), decimalLatitude = JNum (Fin 35.5),
      decimalLongitude = JNum (Fin (- 120.75)), year = JNum (Fin 2023), country = JStr ''US'',
      stateProvince = JUndefined\<rparr>"

text \<open>A source whose only page has three records with numeric coordinates.\<close>

definition three_numeric :: remote where
  "three_numeric name offset = Some (ok_response [keyed 1, keyed 2, keyed 3] True)"

text \<open>A source whose only page has a record without latitude between two records with
  coordinates.\<close>

definition with_gap :: remote where
  "with_gap name offset =
     Some (ok_response [keyed 1, raw_point JNull (JNum (Fin 1)), keyed 2] True)"

text \<open>A source with one page of ten records, marked as the last.\<close>

definition one_page :: remote where
  "one_page name offset =
     (if offset = 0 then Some (ok_response (replicate 10 located) True)
      else Some (ok_response [] True))"

text \<open>A source whose every page has three records and that never signals the end.\<close>

definition endless :: remote where
  "endless name offset = Some (ok_response (replicate 3 located) False)"

text \<open>A source whose first page is fine and whose second request fails.\<close>

definition failing_second :: remote where
  "failing_second name offset =
     (if offset = 0 then Some (ok_response [located] False) else Some unavailable)"

text \<open>A source whose only record has the latitude \<^verbatim>\<open>1e999\<close>, which \<^verbatim>\<open>JSON.parse\<close> reads
  as \<^verbatim>\<open>Infinity\<close>.\<close>

definition overflowing :: remote where
  "overflowing name offset =
     Some (ok_response [raw_point (JNum PosInf) (JNum (Fin 10))] True)"

section \<open>Decimal numerals determine the number\<close>

lemma digit_char_inj: "d < 10 \<Longrightarrow> e < 10 \<Longrightarrow> digit_char d = digit_char e \<Longrightarrow> d = e"
proof -
  assume "d < 10" "e < 10" "digit_char d = digit_char e"
  moreover have "distinct ''0123456789''" by simp
  moreover have "length ''0123456789'' = 10" by simp
  ultimately show "d = e"
    unfolding digit_char_def by (metis nth_eq_iff_index_eq)
qed

lemma digit_char_in: "d < 10 \<Longrightarrow> digit_char d \<in> set ''0123456789''"
  unfolding digit_char_def by (rule nth_mem) simp

lemma digits_nonempty: "digits n \<noteq> []"
  by (subst digits.simps) simp

lemma set_digits: "set (digits n) \<subseteq> set ''0123456789''"
proof (induction n rule: digits.induct)
  case (1 n)
  show ?case
  proof (cases "n < 10")
    case True
    then show ?thesis using digit_char_in[of n] by (subst digits.simps) simp
  next
    case False
    then show ?thesis using 1 digit_char_in[of "n mod 10"] by (subst digits.simps) simp
  qed
qed

lemma digits_small: "n < 10 \<Longrightarrow> digits n = [digit_char n]"
  by (subst digits.simps) simp

lemma digits_large: "\<not> n < 10 \<Longrightarrow> digits n = digits (n div 10) @ [digit_char (n mod 10)]"
  by (subst digits.simps) simp

lemma digits_inj: "digits n = digits m \<Longrightarrow> n = m"
proof (induction n arbitrary: m rule: digits.induct)
  case (1 n)
  show ?case
  proof (cases "n < 10")
    case n: True
    show ?thesis
    proof (cases "m < 10")
      case True
      with n 1(2) have "digit_char n = digit_char m" by (simp add: digits_small)
      with n True show ?thesis by (rule digit_char_inj)
    next
      case False
      with n 1(2) have "[digit_char n] = digits (m div 10) @ [digit_char (m mod 10)]"
        by (simp add: digits_small digits_large)
      then have "digits (m div 10) = []" by (metis append_eq_Cons_conv append_is_Nil_conv list.distinct(1) list.inject)
      then show ?thesis by (simp add: digits_nonempty)
    qed
  next
    case n: False
    show ?thesis
    proof (cases "m < 10")
      case True
      with n 1(2) have "digits (n div 10) @ [digit_char (n mod 10)] = [digit_char m]"
        by (simp add: digits_small digits_large)
      then have "digits (n div 10) = []" by (metis append_eq_Cons_conv append_is_Nil_conv list.distinct(1) list.inject)
      then show ?thesis by (simp add: digits_nonempty)
    next
      case False
      with n 1(2) have "digits (n div 10) @ [digit_char (n mod 10)] = digits (m div 10) @ [digit_char (m mod 10)]"
        by (simp add: digits_large)
      then have eq: "digits (n div 10) = digits (m div 10)" "digit_char (n mod 10) = digit_char (m mod 10)"
        by simp_all
      from 1(1)[OF n eq(1)] have "n div 10 = m div 10" .
      moreover from eq(2) have "n mod 10 = m mod 10" by (rule digit_char_inj[rotated 2]) simp_all
      ultimately show ?thesis by (metis div_mult_mod_eq)
    qed
  qed
qed

lemma not_digit:
  "CHR ''-'' \<notin> digit_set" "CHR ''_'' \<notin> digit_set" "CHR ''N'' \<notin> digit_set" "CHR ''I'' \<notin> digit_set"
  by (simp_all add: digit_set_def)

lemma digits_in_digit_set: "set (digits n) \<subseteq> digit_set"
  unfolding digit_set_def by (rule set_digits)

lemma digits_hd: "hd (digits n) \<in> digit_set"
proof -
  have "hd (digits n) \<in> set (digits n)" by (simp add: digits_nonempty)
  then show ?thesis using digits_in_digit_set by blast
qed

lemma show_int_cases:
  obtains n where "show_int i = digits n" | n where "show_int i = CHR ''-'' # digits n"
  unfolding show_int_def by (cases "i < 0") simp_all

lemma show_int_no_sep: "CHR ''_'' \<notin> set (show_int i)"
proof (cases i rule: show_int_cases)
  case (1 n)
  then show ?thesis using digits_in_digit_set[of n] not_digit(2) by auto
next
  case (2 n)
  then show ?thesis using digits_in_digit_set[of n] not_digit(2) by auto
qed

lemma show_int_not_NaN: "show_int i \<noteq> ''NaN''"
proof
  assume eq: "show_int i = ''NaN''"
  show False
  proof (cases i rule: show_int_cases)
    case (1 n)
    with eq have "hd (digits n) = CHR ''N''" by simp
    then show False using digits_hd[of n] not_digit(3) by simp
  next
    case (2 n)
    with eq show False by simp
  qed
qed

lemma show_int_not_Infinity: "show_int i \<noteq> ''Infinity''"
proof
  assume eq: "show_int i = ''Infinity''"
  show False
  proof (cases i rule: show_int_cases)
    case (1 n)
    with eq have "hd (digits n) = CHR ''I''" by simp
    then show False using digits_hd[of n] not_digit(4) by simp
  next
    case (2 n)
    with eq show False by simp
  qed
qed

lemma show_int_not_NegInfinity: "show_int i \<noteq> ''-Infinity''"
proof
  assume eq: "show_int i = ''-Infinity''"
  show False
  proof (cases i rule: show_int_cases)
    case (1 n)
    with eq have "hd (digits n) = CHR ''-''" by simp
    then show False using digits_hd[of n] not_digit(1) by simp
  next
    case (2 n)
    with eq have "hd (digits n) = CHR ''I''" by simp
    then show False using digits_hd[of n] not_digit(4) by simp
  qed
qed

lemma show_int_inj: "show_int i = show_int j \<Longrightarrow> i = j"
proof -
  assume eq: "show_int i = show_int j"
  have nd: "\<And>n. hd (digits n) \<noteq> CHR ''-''"
    using digits_hd not_digit(1) by metis
  show "i = j"
  proof (cases "i < 0")
    case i: True
    show ?thesis
    proof (cases "j < 0")
      case True
      with i eq have "digits (nat (- i)) = digits (nat (- j))" by (simp add: show_int_def)
      then have "nat (- i) = nat (- j)" by (rule digits_inj)
      with i True show ?thesis by simp
    next
      case False
      with i eq have "CHR ''-'' # digits (nat (- i)) = digits (nat j)" by (simp add: show_int_def)
      then have "hd (digits (nat j)) = CHR ''-''" by (metis list.sel(1))
      with nd show ?thesis by blast
    qed
  next
    case i: False
    show ?thesis
    proof (cases "j < 0")
      case True
      with i eq have "CHR ''-'' # digits (nat (- j)) = digits (nat i)" by (simp add: show_int_def)
      then have "hd (digits (nat i)) = CHR ''-''" by (metis list.sel(1))
      with nd show ?thesis by blast
    next
      case False
      with i eq have "digits (nat i) = digits (nat j)" by (simp add: show_int_def)
      then have "nat i = nat j" by (rule digits_inj)
      with i False show ?thesis by simp
    qed
  qed
qed

lemma number_to_string_no_sep: "CHR ''_'' \<notin> set (number_to_string z)"
  by (cases z) (simp_all add: show_int_no_sep)

lemma number_to_string_floor_inj:
  assumes "number_to_string (js_floor u) = number_to_string (js_floor v)"
  shows "js_floor u = js_floor v"
proof (cases u)
  case u: (Fin a)
  show ?thesis
  proof (cases v)
    case (Fin b)
    with u assms have "show_int \<lfloor>a\<rfloor> = show_int \<lfloor>b\<rfloor>" by simp
    then have "\<lfloor>a\<rfloor> = \<lfloor>b\<rfloor>" by (rule show_int_inj)
    with u Fin show ?thesis by simp
  next
    case PosInf
    with u assms show ?thesis by (simp add: show_int_not_Infinity)
  next
    case NegInf
    with u assms show ?thesis by (simp add: show_int_not_NegInfinity)
  next
    case NaN
    with u assms show ?thesis by (simp add: show_int_not_NaN)
  qed
next
  case u: PosInf
  show ?thesis
  proof (cases v)
    case (Fin b)
    with u assms have "show_int \<lfloor>b\<rfloor> = ''Infinity''" by simp
    then show ?thesis by (simp add: show_int_not_Infinity)
  qed (use u assms in simp_all)
next
  case u: NegInf
  show ?thesis
  proof (cases v)
    case (Fin b)
    with u assms have "show_int \<lfloor>b\<rfloor> = ''-Infinity''" by simp
    then show ?thesis by (simp add: show_int_not_NegInfinity)
  qed (use u assms in simp_all)
next
  case u: NaN
  show ?thesis
  proof (cases v)
    case (Fin b)
    with u assms have "show_int \<lfloor>b\<rfloor> = ''NaN''" by simp
    then show ?thesis by (simp add: show_int_not_NaN)
  qed (use u assms in simp_all)
qed

lemma cell_key_inj:
  assumes "cell_key cellSizeDeg x = cell_key cellSizeDeg y"
  shows "js_floor (js_div (lat x) cellSizeDeg) = js_floor (js_div (lat y) cellSizeDeg) \<and>
         js_floor (js_div (lng x) cellSizeDeg) = js_floor (js_div (lng y) cellSizeDeg)"
proof -
  have sep: "''_'' = [CHR ''_'']" by simp
  from assms have "number_to_string (js_floor (js_div (lat x) cellSizeDeg)) = number_to_string (js_floor (js_div (lat y) cellSizeDeg)) \<and>
     number_to_string (js_floor (js_div (lng x) cellSizeDeg)) = number_to_string (js_floor (js_div (lng y) cellSizeDeg))"
    unfolding cell_key_def append_Cons append_Nil
    by (subst (asm) append_Cons_eq_iff) (rule number_to_string_no_sep)+
  then show ?thesis by (metis number_to_string_floor_inj)
qed

section \<open>The grid after the first loop\<close>

lemma map_of_grid_set: "map_of (grid_set g k v) = (map_of g)(k \<mapsto> v)"
  by (induction g) (auto simp: fun_eq_iff)

lemma keys_grid_set:
  "map fst (grid_set g k v) = (if k \<in> fst ` set g then map fst g else map fst g @ [k])"
  by (induction g) force+

lemma distinct_grid_set: "distinct (map fst g) \<Longrightarrow> distinct (map fst (grid_set g k v))"
  by (simp add: keys_grid_set)

lemma grid_inv_empty: "grid_inv cellSizeDeg [] []"
  by (simp add: grid_inv_def)

lemma add_occurrence_key:
  "add_occurrence cellSizeDeg g x =
     grid_set g (cell_key cellSizeDeg x)
       ((case grid_get g (cell_key cellSizeDeg x) of Some c \<Rightarrow> c
         | None \<Rightarrow> \<lparr>latIdx = js_floor (js_div (lat x) cellSizeDeg),
                    lngIdx = js_floor (js_div (lng x) cellSizeDeg), count = 0, samples = []\<rparr>)
        \<lparr>count := count (case grid_get g (cell_key cellSizeDeg x) of Some c \<Rightarrow> c
         | None \<Rightarrow> \<lparr>latIdx = js_floor (js_div (lat x) cellSizeDeg),
                    lngIdx = js_floor (js_div (lng x) cellSizeDeg), count = 0, samples = []\<rparr>) + 1,
         samples := samples (case grid_get g (cell_key cellSizeDeg x) of Some c \<Rightarrow> c
         | None \<Rightarrow> \<lparr>latIdx = js_floor (js_div (lat x) cellSizeDeg),
                    lngIdx = js_floor (js_div (lng x) cellSizeDeg), count = 0, samples = []\<rparr>) @ [x]\<rparr>)"
  by (simp add: add_occurrence_def cell_key_def Let_def)

lemma entry_of_other:
  "entry_of cellSizeDeg xs k c \<Longrightarrow> cell_key cellSizeDeg x \<noteq> k \<Longrightarrow> entry_of cellSizeDeg (xs @ [x]) k c"
  by (auto simp: entry_of_def)

lemma entry_of_same:
  "entry_of cellSizeDeg xs (cell_key cellSizeDeg x) c \<Longrightarrow>
   entry_of cellSizeDeg (xs @ [x]) (cell_key cellSizeDeg x)
     (c\<lparr>count := Suc (count c), samples := samples c @ [x]\<rparr>)"
  by (auto simp: entry_of_def)

lemma entry_of_fresh:
  "cell_key cellSizeDeg x \<notin> cell_key cellSizeDeg ` set xs \<Longrightarrow>
   entry_of cellSizeDeg (xs @ [x]) (cell_key cellSizeDeg x)
     \<lparr>latIdx = js_floor (js_div (lat x) cellSizeDeg),
      lngIdx = js_floor (js_div (lng x) cellSizeDeg), count = Suc 0, samples = [x]\<rparr>"
proof -
  assume "cell_key cellSizeDeg x \<notin> cell_key cellSizeDeg ` set xs"
  then have "\<forall>y \<in> set xs. cell_key cellSizeDeg y \<noteq> cell_key cellSizeDeg x"
    by (metis imageI)
  then have "filter (\<lambda>y. cell_key cellSizeDeg y = cell_key cellSizeDeg x) xs = []"
    by (simp add: filter_empty_conv)
  then show ?thesis by (simp add: entry_of_def)
qed

lemma grid_inv_step:
  assumes "grid_inv cellSizeDeg xs g"
  shows "grid_inv cellSizeDeg (xs @ [x]) (add_occurrence cellSizeDeg g x)"
proof (cases "map_of g (cell_key cellSizeDeg x)")
  case None
  then have fresh: "cell_key cellSizeDeg x \<notin> cell_key cellSizeDeg ` set xs"
    using assms by (metis grid_inv_def map_of_eq_None_iff)
  have step: "add_occurrence cellSizeDeg g x = grid_set g (cell_key cellSizeDeg x)
      \<lparr>latIdx = js_floor (js_div (lat x) cellSizeDeg),
       lngIdx = js_floor (js_div (lng x) cellSizeDeg), count = Suc 0, samples = [x]\<rparr>"
    using None by (simp add: add_occurrence_key grid_get_def)
  show ?thesis
    unfolding grid_inv_def step
  proof (intro conjI allI impI)
    show "distinct (map fst (grid_set g (cell_key cellSizeDeg x) \<lparr>latIdx = js_floor (js_div (lat x) cellSizeDeg),
       lngIdx = js_floor (js_div (lng x) cellSizeDeg), count = Suc 0, samples = [x]\<rparr>))"
      using assms by (simp add: grid_inv_def distinct_grid_set)
  next
    have "set (map fst (grid_set g (cell_key cellSizeDeg x) \<lparr>latIdx = js_floor (js_div (lat x) cellSizeDeg),
       lngIdx = js_floor (js_div (lng x) cellSizeDeg), count = Suc 0, samples = [x]\<rparr>)) = cell_key cellSizeDeg ` set (xs @ [x])"
      using assms by (auto simp: keys_grid_set grid_inv_def)
    then show "fst ` set (grid_set g (cell_key cellSizeDeg x) \<lparr>latIdx = js_floor (js_div (lat x) cellSizeDeg),
       lngIdx = js_floor (js_div (lng x) cellSizeDeg), count = Suc 0, samples = [x]\<rparr>) = cell_key cellSizeDeg ` set (xs @ [x])"
      by simp
  next
    fix k c
    assume "map_of (grid_set g (cell_key cellSizeDeg x) \<lparr>latIdx = js_floor (js_div (lat x) cellSizeDeg),
       lngIdx = js_floor (js_div (lng x) cellSizeDeg), count = Suc 0, samples = [x]\<rparr>) k = Some c"
    then show "entry_of cellSizeDeg (xs @ [x]) k c"
      using assms fresh
      by (auto simp: map_of_grid_set grid_inv_def entry_of_fresh entry_of_other split: if_splits)
  qed
next
  case (Some c0)
  have step: "add_occurrence cellSizeDeg g x = grid_set g (cell_key cellSizeDeg x)
      (c0\<lparr>count := count c0 + 1, samples := samples c0 @ [x]\<rparr>)"
    using Some by (simp add: add_occurrence_key grid_get_def)
  have old: "entry_of cellSizeDeg xs (cell_key cellSizeDeg x) c0"
    using assms Some by (simp add: grid_inv_def)
  have mem: "cell_key cellSizeDeg x \<in> fst ` set g"
    using Some by (metis map_of_eq_None_iff option.distinct(1))
  show ?thesis
    unfolding grid_inv_def step
  proof (intro conjI allI impI)
    show "distinct (map fst (grid_set g (cell_key cellSizeDeg x) (c0\<lparr>count := count c0 + 1, samples := samples c0 @ [x]\<rparr>)))"
      using assms by (simp add: grid_inv_def distinct_grid_set)
  next
    have "set (map fst (grid_set g (cell_key cellSizeDeg x) (c0\<lparr>count := count c0 + 1, samples := samples c0 @ [x]\<rparr>))) = cell_key cellSizeDeg ` set (xs @ [x])"
      using assms mem by (auto simp: keys_grid_set grid_inv_def)
    then show "fst ` set (grid_set g (cell_key cellSizeDeg x) (c0\<lparr>count := count c0 + 1, samples := samples c0 @ [x]\<rparr>)) = cell_key cellSizeDeg ` set (xs @ [x])"
      by simp
  next
    fix k c
    assume "map_of (grid_set g (cell_key cellSizeDeg x) (c0\<lparr>count := count c0 + 1, samples := samples c0 @ [x]\<rparr>)) k = Some c"
    then show "entry_of cellSizeDeg (xs @ [x]) k c"
      using assms old
      by (auto simp: map_of_grid_set grid_inv_def entry_of_same entry_of_other split: if_splits)
  qed
qed

lemma build_grid_snoc:
  "build_grid cellSizeDeg (xs @ [x]) = add_occurrence cellSizeDeg (build_grid cellSizeDeg xs) x"
  by (simp add: build_grid_def)

lemma grid_inv_build: "grid_inv cellSizeDeg xs (build_grid cellSizeDeg xs)"
proof (induction xs rule: rev_induct)
  case Nil
  show ?case by (simp add: build_grid_def grid_inv_empty)
next
  case (snoc x xs)
  then show ?case by (simp add: build_grid_snoc grid_inv_step)
qed

section \<open>The cells and the summary after the second loop\<close>

lemma emit_cell_eq:
  "emit_cell cellSizeDeg th (cs, hc, mc, lc) e =
     (cs @ [out_cell cellSizeDeg th e],
      hc + (if tier th (snd e) = High then 1 else 0),
      mc + (if tier th (snd e) = Medium then 1 else 0),
      lc + (if tier th (snd e) = Low then 1 else 0))"
  by (cases e) (simp add: out_cell_def tier_def)

lemma foldl_emit_cell:
  "foldl (emit_cell cellSizeDeg th) (cs, hc, mc, lc) g =
     (cs @ map (out_cell cellSizeDeg th) g,
      hc + length (filter (\<lambda>e. tier th (snd e) = High) g),
      mc + length (filter (\<lambda>e. tier th (snd e) = Medium) g),
      lc + length (filter (\<lambda>e. tier th (snd e) = Low) g))"
proof (induction g arbitrary: cs hc mc lc)
  case Nil
  show ?case by simp
next
  case (Cons e g)
  show ?case by (simp only: foldl_Cons emit_cell_eq Cons.IH) simp
qed

lemma emit_result_eq:
  "emit_result cellSizeDeg th len g =
     \<lparr>cells = map (out_cell cellSizeDeg th) g,
      summary = \<lparr>totalRecords = len, cellCount = length g,
                 highCount = length (filter (\<lambda>e. tier th (snd e) = High) g),
                 medCount = length (filter (\<lambda>e. tier th (snd e) = Medium) g),
                 lowCount = length (filter (\<lambda>e. tier th (snd e) = Low) g)\<rparr>\<rparr>"
  by (simp add: emit_result_def foldl_emit_cell)

lemma computeGridCells_eq:
  "computeGridCells occurrences cellSizeDeg th =
     \<lparr>cells = map (out_cell cellSizeDeg th) (build_grid cellSizeDeg occurrences),
      summary = \<lparr>totalRecords = length occurrences,
                 cellCount = length (build_grid cellSizeDeg occurrences),
                 highCount = length (filter (\<lambda>e. tier th (snd e) = High) (build_grid cellSizeDeg occurrences)),
                 medCount = length (filter (\<lambda>e. tier th (snd e) = Medium) (build_grid cellSizeDeg occurrences)),
                 lowCount = length (filter (\<lambda>e. tier th (snd e) = Low) (build_grid cellSizeDeg occurrences))\<rparr>\<rparr>"
  by (simp add: computeGridCells_def emit_result_eq)

lemma tier_partition:
  "length (filter (\<lambda>e. tier th (snd e) = High) g) + length (filter (\<lambda>e. tier th (snd e) = Medium) g) +
   length (filter (\<lambda>e. tier th (snd e) = Low) g) = length g"
proof (induction g)
  case Nil
  show ?case by simp
next
  case (Cons e g)
  then show ?case by (cases "tier th (snd e)") simp_all
qed

lemma sum_grid_set:
  "(\<Sum>e\<leftarrow>grid_set g k v. count (snd e)) + (case map_of g k of None \<Rightarrow> 0 | Some c \<Rightarrow> count c) =
   (\<Sum>e\<leftarrow>g. count (snd e)) + count v"
  by (induction g) auto

lemma sum_add_occurrence:
  "(\<Sum>e\<leftarrow>add_occurrence cellSizeDeg g x. count (snd e)) = Suc (\<Sum>e\<leftarrow>g. count (snd e))"
proof (cases "map_of g (cell_key cellSizeDeg x)")
  case None
  then show ?thesis
    using sum_grid_set[of g "cell_key cellSizeDeg x"
        "\<lparr>latIdx = js_floor (js_div (lat x) cellSizeDeg),
          lngIdx = js_floor (js_div (lng x) cellSizeDeg), count = Suc 0, samples = [x]\<rparr>"]
    by (simp add: add_occurrence_key grid_get_def)
next
  case (Some c)
  then show ?thesis
    using sum_grid_set[of g "cell_key cellSizeDeg x" "c\<lparr>count := Suc (count c), samples := samples c @ [x]\<rparr>"]
    by (simp add: add_occurrence_key grid_get_def)
qed

lemma sum_build_grid:
  "(\<Sum>e\<leftarrow>build_grid cellSizeDeg xs. count (snd e)) = length xs"
proof (induction xs rule: rev_induct)
  case Nil
  show ?case by (simp add: build_grid_def)
next
  case (snoc x xs)
  then show ?case by (simp add: build_grid_snoc sum_add_occurrence)
qed

lemma cell_count_out: "cell_count (out_cell cellSizeDeg th e) = count (snd e)"
  by (simp add: out_cell_def)

lemma grid_entry:
  assumes "e \<in> set (build_grid cellSizeDeg xs)"
  shows "entry_of cellSizeDeg xs (fst e) (snd e)"
proof -
  have inv: "grid_inv cellSizeDeg xs (build_grid cellSizeDeg xs)" by (rule grid_inv_build)
  then have "distinct (map fst (build_grid cellSizeDeg xs))" by (simp add: grid_inv_def)
  with assms have "map_of (build_grid cellSizeDeg xs) (fst e) = Some (snd e)" by simp
  with inv show ?thesis by (simp add: grid_inv_def)
qed

lemma grid_keys: "fst ` set (build_grid cellSizeDeg xs) = cell_key cellSizeDeg ` set xs"
  using grid_inv_build[of cellSizeDeg xs] by (simp add: grid_inv_def)

lemma grid_distinct: "distinct (map fst (build_grid cellSizeDeg xs))"
  using grid_inv_build[of cellSizeDeg xs] by (simp add: grid_inv_def)

lemma cells_eq: "cells (computeGridCells xs cellSizeDeg th) = map (out_cell cellSizeDeg th) (build_grid cellSizeDeg xs)"
  by (simp add: computeGridCells_eq)

lemma cell_ids: "map cell_id (cells (computeGridCells xs cellSizeDeg th)) = map fst (build_grid cellSizeDeg xs)"
  by (simp add: cells_eq out_cell_def)

lemma cell_samples_filter:
  assumes "c \<in> set (cells (computeGridCells xs cellSizeDeg th))"
  shows "cell_samples c = filter (\<lambda>x. cell_key cellSizeDeg x = cell_id c) xs"
    and "cell_count c = length (cell_samples c)"
    and "cell_risk c =
          (if js_ge (Fin (real (cell_count c))) (high th) then High
           else if js_ge (Fin (real (cell_count c))) (medium th) then Medium else Low)"
proof -
  from assms obtain e where e: "e \<in> set (build_grid cellSizeDeg xs)" and c: "c = out_cell cellSizeDeg th e"
    by (auto simp: cells_eq)
  from grid_entry[OF e] show "cell_samples c = filter (\<lambda>x. cell_key cellSizeDeg x = cell_id c) xs"
    and "cell_count c = length (cell_samples c)"
    by (simp_all add: c out_cell_def entry_of_def)
  show "cell_risk c =
          (if js_ge (Fin (real (cell_count c))) (high th) then High
           else if js_ge (Fin (real (cell_count c))) (medium th) then Medium else Low)"
    by (simp add: c out_cell_def tier_def)
qed

section \<open>The store version computes the same cells\<close>

lemma grid_get_deref: "grid_get (deref_grid h g) k = map_option (deref_cell h) (grid_get g k)"
  by (induction g) (auto simp: grid_get_def deref_grid_def)

lemma deref_grid_set:
  "deref_grid h (grid_set g k v) = grid_set (deref_grid h g) k (deref_cell h v)"
  by (induction g) (auto simp: deref_grid_def)

lemma deref_grid_cong:
  "(\<And>e. e \<in> set g \<Longrightarrow> arrays h' (samples (snd e)) = arrays h (samples (snd e))) \<Longrightarrow>
   deref_grid h' g = deref_grid h g"
  by (simp add: deref_grid_def deref_cell_def)

lemma grid_set_deref_first:
  assumes "grid_get g k = Some c" and "distinct (map (\<lambda>e. samples (snd e)) g)"
    and "\<And>b. b \<noteq> samples c \<Longrightarrow> arrays h' b = arrays h b"
  shows "grid_set (deref_grid h' g) k w = grid_set (deref_grid h g) k w"
  using assms(1,2)
proof (induction g)
  case Nil
  then show ?case by (simp add: grid_get_def)
next
  case (Cons e g)
  show ?case
  proof (cases "fst e = k")
    case True
    with Cons.prems have c: "snd e = c" by (simp add: grid_get_def)
    have "deref_grid h' g = deref_grid h g"
    proof (rule deref_grid_cong)
      fix e' assume "e' \<in> set g"
      with Cons.prems(2) c have "samples (snd e') \<noteq> samples c" by (metis (no_types, lifting) distinct.simps(2) image_eqI list.simps(9) list.set_map)
      then show "arrays h' (samples (snd e')) = arrays h (samples (snd e'))" by (rule assms(3))
    qed
    with True show ?thesis by (simp add: deref_grid_def)
  next
    case False
    with Cons.prems have get: "grid_get g k = Some c" by (simp add: grid_get_def)
    then have "(k, c) \<in> set g" by (simp add: grid_get_def map_of_SomeD)
    then have "samples c \<in> set (map (\<lambda>e. samples (snd e)) g)" by force
    with Cons.prems(2) have "samples (snd e) \<noteq> samples c"
      by (metis distinct.simps(2) list.simps(9))
    then have "deref_cell h' (snd e) = deref_cell h (snd e)"
      by (simp add: deref_cell_def assms(3))
    moreover have "grid_set (deref_grid h' g) k w = grid_set (deref_grid h g) k w"
      using Cons.IH get Cons.prems(2) by simp
    ultimately show ?thesis using False by (simp add: deref_grid_def)
  qed
qed

lemma samples_grid_set_same:
  "grid_get g k = Some c \<Longrightarrow> samples v = samples c \<Longrightarrow>
   map (\<lambda>e. samples (snd e)) (grid_set g k v) = map (\<lambda>e. samples (snd e)) g"
  by (induction g) (auto simp: grid_get_def)

lemma grid_set_fresh: "grid_get g k = None \<Longrightarrow> grid_set g k v = g @ [(k, v)]"
proof (induction g)
  case Nil
  show ?case by simp
next
  case (Cons e g)
  then show ?case by (cases e) (auto simp: grid_get_def split: if_splits)
qed

lemma add_occurrence_store_step:
  assumes inv: "store_inv h0 h g" and a: "a < fresh h0"
  shows "case add_occurrence_store cellSizeDeg a (h, g) i of
           (h', g') \<Rightarrow>
             store_inv h0 h' g' \<and>
             deref_grid h' g' = add_occurrence cellSizeDeg (deref_grid h g) (arrays h0 a ! i)"
proof -
  let ?x = "arrays h0 a ! i"
  let ?k = "cell_key cellSizeDeg ?x"
  from inv a have ha: "arrays h a = arrays h0 a" by (simp add: store_inv_def)
  show ?thesis
  proof (cases "grid_get g ?k")
    case None
    let ?c = "\<lparr>latIdx = js_floor (js_div (lat ?x) cellSizeDeg),
               lngIdx = js_floor (js_div (lng ?x) cellSizeDeg), count = Suc 0, samples = fresh h\<rparr>"
    let ?h = "h\<lparr>arrays := (arrays h)(fresh h := [?x]), fresh := Suc (fresh h)\<rparr>"
    have step: "add_occurrence_store cellSizeDeg a (h, g) i = (?h, g @ [(?k, ?c)])"
      using None by (simp add: add_occurrence_store_def ha cell_key_def Let_def grid_set_fresh)
    have old: "\<forall>e \<in> set g. samples (snd e) < fresh h"
      using inv by (simp add: store_inv_def)
    have "store_inv h0 ?h (g @ [(?k, ?c)])"
      unfolding store_inv_def
    proof (intro conjI allI impI ballI)
      show "fresh h0 \<le> fresh ?h" using inv by (simp add: store_inv_def)
      have "fresh h \<notin> set (map (\<lambda>e. samples (snd e)) g)"
      proof
        assume "fresh h \<in> set (map (\<lambda>e. samples (snd e)) g)"
        then obtain e where "e \<in> set g" "samples (snd e) = fresh h" by auto
        with old show False by fastforce
      qed
      then show "distinct (map (\<lambda>e. samples (snd e)) (g @ [(?k, ?c)]))"
        using inv by (simp add: store_inv_def)
    next
      fix b assume "b < fresh h0"
      then show "arrays ?h b = arrays h0 b" using inv by (simp add: store_inv_def)
    next
      fix e assume "e \<in> set (g @ [(?k, ?c)])"
      then have "e \<in> set g \<or> e = (?k, ?c)" by auto
      then show "fresh h0 \<le> samples (snd e)" "samples (snd e) < fresh ?h"
        using inv old by (fastforce simp: store_inv_def)+
    qed
    moreover have "deref_grid ?h g = deref_grid h g"
    proof (rule deref_grid_cong)
      fix e assume "e \<in> set g"
      with old have "samples (snd e) \<noteq> fresh h" by fastforce
      then show "arrays ?h (samples (snd e)) = arrays h (samples (snd e))" by simp
    qed
    then have "deref_grid ?h (g @ [(?k, ?c)]) = add_occurrence cellSizeDeg (deref_grid h g) ?x"
      using None
      by (simp add: add_occurrence_def grid_get_deref cell_key_def Let_def grid_set_fresh)
         (simp add: deref_grid_def deref_cell_def)
    ultimately show ?thesis by (simp add: step)
  next
    case (Some c)
    let ?c = "c\<lparr>count := Suc (count c)\<rparr>"
    let ?h = "h\<lparr>arrays := (arrays h)(samples c := arrays h (samples c) @ [?x])\<rparr>"
    have step: "add_occurrence_store cellSizeDeg a (h, g) i = (?h, grid_set g ?k ?c)"
      using Some by (simp add: add_occurrence_store_def ha cell_key_def Let_def)
    from Some have mem: "(?k, c) \<in> set g" by (simp add: grid_get_def map_of_SomeD)
    with inv have bounds: "fresh h0 \<le> samples c" "samples c < fresh h"
      by (auto simp: store_inv_def)
    have samp: "map (\<lambda>e. samples (snd e)) (grid_set g ?k ?c) = map (\<lambda>e. samples (snd e)) g"
      using Some by (rule samples_grid_set_same) simp
    have "store_inv h0 ?h (grid_set g ?k ?c)"
      unfolding store_inv_def
    proof (intro conjI allI impI ballI)
      show "fresh h0 \<le> fresh ?h" using inv by (simp add: store_inv_def)
      show "distinct (map (\<lambda>e. samples (snd e)) (grid_set g ?k ?c))"
        using inv by (simp add: samp store_inv_def)
    next
      fix b assume "b < fresh h0"
      then show "arrays ?h b = arrays h0 b" using inv bounds by (simp add: store_inv_def)
    next
      fix e assume "e \<in> set (grid_set g ?k ?c)"
      then have "samples (snd e) \<in> set (map (\<lambda>e. samples (snd e)) (grid_set g ?k ?c))" by simp
      then have "samples (snd e) \<in> set (map (\<lambda>e. samples (snd e)) g)" by (simp only: samp)
      then obtain e' where "e' \<in> set g" "samples (snd e') = samples (snd e)" by auto
      then show "fresh h0 \<le> samples (snd e)" "samples (snd e) < fresh ?h"
        using inv by (auto simp: store_inv_def)
    qed
    moreover have "deref_grid ?h (grid_set g ?k ?c) = add_occurrence cellSizeDeg (deref_grid h g) ?x"
    proof -
      have "deref_grid ?h (grid_set g ?k ?c) = grid_set (deref_grid ?h g) ?k (deref_cell ?h ?c)"
        by (rule deref_grid_set)
      also have "\<dots> = grid_set (deref_grid h g) ?k (deref_cell ?h ?c)"
        using Some
      proof (rule grid_set_deref_first)
        show "distinct (map (\<lambda>e. samples (snd e)) g)" using inv by (simp add: store_inv_def)
      qed simp
      also have "\<dots> = add_occurrence cellSizeDeg (deref_grid h g) ?x"
        using Some
        by (simp add: add_occurrence_def grid_get_deref cell_key_def Let_def deref_cell_def)
      finally show ?thesis .
    qed
    ultimately show ?thesis by (simp add: step)
  qed
qed

lemma store_inv_init: "store_inv h h []"
  by (simp add: store_inv_def)

lemma store_loop:
  assumes a: "a < fresh h" and n: "n \<le> length (arrays h a)"
  shows "case foldl (add_occurrence_store cellSizeDeg a) (h, []) [0..<n] of
           (h', g) \<Rightarrow>
             store_inv h h' g \<and> deref_grid h' g = build_grid cellSizeDeg (take n (arrays h a))"
  using n
proof (induction n)
  case 0
  show ?case by (simp add: store_inv_init deref_grid_def build_grid_def)
next
  case (Suc n)
  obtain h' g where run: "foldl (add_occurrence_store cellSizeDeg a) (h, []) [0..<n] = (h', g)"
    by (cases "foldl (add_occurrence_store cellSizeDeg a) (h, []) [0..<n]")
  with Suc have inv: "store_inv h h' g"
    and eq: "deref_grid h' g = build_grid cellSizeDeg (take n (arrays h a))"
    by simp_all
  obtain h'' g' where step: "add_occurrence_store cellSizeDeg a (h', g) n = (h'', g')"
    by (cases "add_occurrence_store cellSizeDeg a (h', g) n")
  from add_occurrence_store_step[OF inv a, of cellSizeDeg n] step
  have inv': "store_inv h h'' g'"
    and eq': "deref_grid h'' g' = add_occurrence cellSizeDeg (deref_grid h' g) (arrays h a ! n)"
    by simp_all
  from Suc.prems have "take (Suc n) (arrays h a) = take n (arrays h a) @ [arrays h a ! n]"
    by (simp add: take_Suc_conv_app_nth)
  then have "deref_grid h'' g' = build_grid cellSizeDeg (take (Suc n) (arrays h a))"
    by (simp add: eq' eq build_grid_snoc)
  with inv' show ?case by (simp add: run step)
qed

lemma tier_deref: "tier th (deref_cell h c) = tier th c"
  by (simp add: tier_def deref_cell_def)

lemma contents_emit_result:
  "contents h (emit_result cellSizeDeg th len g) = emit_result cellSizeDeg th len (deref_grid h g)"
proof -
  have "\<And>t. length (filter (\<lambda>e. tier th (snd e) = t) (deref_grid h g)) =
             length (filter (\<lambda>e. tier th (snd e) = t) g)"
    by (simp add: deref_grid_def filter_map comp_def tier_deref)
  then show ?thesis
    by (simp add: emit_result_eq contents_def)
       (simp add: deref_grid_def out_cell_def deref_cell_def tier_def)
qed

lemma computeGridCells_store_refines:
  assumes a: "a < fresh h" and run: "computeGridCells_store h a cellSizeDeg th = (r, h')"
  shows "contents h' r = computeGridCells (arrays h a) cellSizeDeg th"
    and "\<forall>b < fresh h. arrays h' b = arrays h b"
    and "fresh h \<le> fresh h'"
    and "\<forall>c \<in> set (cells r). fresh h \<le> cell_samples c \<and> cell_samples c < fresh h'"
proof -
  obtain g where loop: "foldl (add_occurrence_store cellSizeDeg a) (h, []) [0..<length (arrays h a)] = (h', g)"
    and r: "r = emit_result cellSizeDeg th (length (arrays h' a)) g"
    using run by (auto simp: computeGridCells_store_def split: prod.splits)
  from store_loop[OF a order_refl, of cellSizeDeg] loop
  have inv: "store_inv h h' g" and eq: "deref_grid h' g = build_grid cellSizeDeg (arrays h a)"
    by simp_all
  from inv show pres: "\<forall>b < fresh h. arrays h' b = arrays h b" and "fresh h \<le> fresh h'"
    by (simp_all add: store_inv_def)
  from pres a have same: "arrays h' a = arrays h a" by simp
  show "contents h' r = computeGridCells (arrays h a) cellSizeDeg th"
    by (simp add: r contents_emit_result eq same computeGridCells_def)
  show "\<forall>c \<in> set (cells r). fresh h \<le> cell_samples c \<and> cell_samples c < fresh h'"
    using inv by (auto simp: r emit_result_eq out_cell_def store_inv_def)
qed

lemma contents_cong:
  assumes "\<forall>c \<in> set (cells r). arrays h' (cell_samples c) = arrays h (cell_samples c)"
  shows "contents h' r = contents h r"
  using assms by (simp add: contents_def)

section \<open>The fetch loop, page by page\<close>

lemma offsets_Suc: "offsets (Suc k) = offsets k @ [k * PAGE_LIMIT]"
  by (simp add: offsets_def)

lemma page_SomeD:
  "page remote name k = Some d \<Longrightarrow>
   \<exists>res. remote name (k * PAGE_LIMIT) = Some res \<and> ok res \<and> body res = Some d"
  by (auto simp: page_def split: option.splits if_splits)

lemma fetch_loop_page:
  assumes "length all < m" and "remote name off = Some res" and "ok res" and "body res = Some d"
  shows "fetch_loop remote name m all off sent =
          (if endOfRecords d \<or> page_results d = []
           then Some (Inr (all @ clean (page_results d)), sent @ [off])
           else fetch_loop remote name m (all @ clean (page_results d)) (off + PAGE_LIMIT) (sent @ [off]))"
  by (subst fetch_loop.simps) (simp add: assms)

lemma fetch_loop_full:
  "\<not> length all < m \<Longrightarrow> fetch_loop remote name m all off sent = Some (Inr all, sent)"
  by (subst fetch_loop.simps) simp

lemma fetch_loop_not_ok:
  assumes "length all < m" and "remote name off = Some res" and "\<not> ok res"
  shows "fetch_loop remote name m all off sent = Some (Inl (Error (failure_message res)), sent @ [off])"
  by (subst fetch_loop.simps) (simp add: assms)

lemma continues_afterD:
  assumes "continues_after remote name m k"
  obtains res d where "remote name (k * PAGE_LIMIT) = Some res" and "ok res" and "body res = Some d"
    and "page remote name k = Some d"
    and "length (accumulated remote name (Suc k)) < m" and "\<not> endOfRecords d" and "page_results d \<noteq> []"
proof -
  from assms obtain d where d: "page remote name k = Some d"
    and c: "length (accumulated remote name (Suc k)) < m \<and> \<not> endOfRecords d \<and> page_results d \<noteq> []"
    unfolding continues_after_def by (cases "page remote name k") simp_all
  from page_SomeD[OF d] obtain res where
    "remote name (k * PAGE_LIMIT) = Some res" "ok res" "body res = Some d" by blast
  with d c that show thesis by blast
qed

lemma accumulated_Suc:
  "page remote name k = Some d \<Longrightarrow>
   accumulated remote name (Suc k) = accumulated remote name k @ clean (page_results d)"
  by simp

lemma loop_continue:
  assumes below: "length (accumulated remote name k) < m" and cont: "continues_after remote name m k"
  shows "fetch_loop remote name m (accumulated remote name k) (k * PAGE_LIMIT) (offsets k) =
         fetch_loop remote name m (accumulated remote name (Suc k)) (Suc k * PAGE_LIMIT) (offsets (Suc k))"
proof -
  from cont obtain res d where res: "remote name (k * PAGE_LIMIT) = Some res" "ok res" "body res = Some d"
    and d: "page remote name k = Some d" and c: "\<not> endOfRecords d" "page_results d \<noteq> []"
    by (rule continues_afterD)
  have off: "Suc k * PAGE_LIMIT = k * PAGE_LIMIT + PAGE_LIMIT" by simp
  show ?thesis
    unfolding fetch_loop_page[where remote=remote and name=name and off="k * PAGE_LIMIT", OF below res]
      accumulated_Suc[OF d] offsets_Suc off
    using c by simp
qed

lemma accumulated_below:
  assumes "0 < m" and "\<forall>j<k. continues_after remote name m j"
  shows "length (accumulated remote name k) < m"
proof (cases k)
  case 0
  with assms(1) show ?thesis by simp
next
  case (Suc j)
  with assms(2) have "continues_after remote name m j" by simp
  then show ?thesis unfolding Suc by (rule continues_afterD)
qed

lemma loop_prefix:
  assumes "0 < m" and "\<forall>j<k. continues_after remote name m j"
  shows "fetch_loop remote name m [] 0 [] =
         fetch_loop remote name m (accumulated remote name k) (k * PAGE_LIMIT) (offsets k)"
  using assms(2)
proof (induction k)
  case 0
  show ?case by (simp add: offsets_def)
next
  case (Suc k)
  then have prev: "\<forall>j<k. continues_after remote name m j" and cur: "continues_after remote name m k"
    by simp_all
  from accumulated_below[OF assms(1) prev] cur
  have "fetch_loop remote name m (accumulated remote name k) (k * PAGE_LIMIT) (offsets k) =
        fetch_loop remote name m (accumulated remote name (Suc k)) (Suc k * PAGE_LIMIT) (offsets (Suc k))"
    by (rule loop_continue)
  with Suc.IH[OF prev] show ?case by simp
qed

lemma loop_stop:
  assumes below: "length (accumulated remote name k) < m" and stop: "stops_after remote name m k"
  shows "fetch_loop remote name m (accumulated remote name k) (k * PAGE_LIMIT) (offsets k) =
         Some (Inr (accumulated remote name (Suc k)), offsets (Suc k))"
proof -
  from stop obtain d where d: "page remote name k = Some d"
    and c: "m \<le> length (accumulated remote name (Suc k)) \<or> endOfRecords d \<or> page_results d = []"
    unfolding stops_after_def by (cases "page remote name k") simp_all
  from page_SomeD[OF d] obtain res where
    res: "remote name (k * PAGE_LIMIT) = Some res" "ok res" "body res = Some d" by blast
  note step = fetch_loop_page[where remote=remote and name=name and off="k * PAGE_LIMIT"
      and sent="offsets k", OF below res]
  show ?thesis
  proof (cases "endOfRecords d \<or> page_results d = []")
    case True
    then show ?thesis
      unfolding step accumulated_Suc[OF d] offsets_Suc by simp
  next
    case False
    with c have full: "\<not> length (accumulated remote name (Suc k)) < m" by simp
    have "fetch_loop remote name m (accumulated remote name k) (k * PAGE_LIMIT) (offsets k) =
          fetch_loop remote name m (accumulated remote name (Suc k)) (k * PAGE_LIMIT + PAGE_LIMIT) (offsets (Suc k))"
      unfolding step accumulated_Suc[OF d] offsets_Suc using False by simp
    also have "\<dots> = Some (Inr (accumulated remote name (Suc k)), offsets (Suc k))"
      using full by (rule fetch_loop_full)
    finally show ?thesis .
  qed
qed

lemma loop_fail:
  assumes "length (accumulated remote name k) < m"
    and "remote name (k * PAGE_LIMIT) = Some res" and "\<not> ok res"
  shows "fetch_loop remote name m (accumulated remote name k) (k * PAGE_LIMIT) (offsets k) =
         Some (Inl (Error (failure_message res)), offsets (Suc k))"
  unfolding offsets_Suc
  by (rule fetch_loop_not_ok[where remote=remote and name=name and off="k * PAGE_LIMIT", OF assms])

lemma fetch_result:
  "fetch_loop remote name m [] 0 [] = Some (res, sent) \<Longrightarrow>
   fetchOccurrencesForSpecies remote name m =
     Some (case res of Inl e \<Rightarrow> Inl e | Inr all \<Rightarrow> Inr (take m all), sent)"
  by (cases res) (simp_all add: fetchOccurrencesForSpecies_def)

lemma distinct_offsets: "distinct (offsets n)"
  unfolding offsets_def by (simp add: distinct_map inj_on_def PAGE_LIMIT_def)

lemma typeof_number: "typeof v = TNumber \<longleftrightarrow> (\<exists>a. v = JNum a)"
  by (cases v) simp_all

lemma clean_append: "clean (xs @ ys) = clean xs @ clean ys"
  by (simp add: clean_def)

lemma is_number_typeof: "is_number v \<longleftrightarrow> typeof v = TNumber"
  by (cases v) simp_all

lemma clean_numeric: "clean rs = map sanitize (filter numeric_coordinates rs)"
proof -
  have "has_coordinates = numeric_coordinates"
    by (simp add: fun_eq_iff has_coordinates_def numeric_coordinates_def is_number_typeof)
  then show ?thesis by (simp add: clean_def)
qed

lemma accumulated_raw:
  "accumulated remote name k = clean (raw_records remote name k)"
proof (induction k)
  case 0
  show ?case by (simp add: clean_def)
next
  case (Suc k)
  then show ?case
    by (cases "page remote name k") (simp_all add: clean_append clean_def)
qed

lemma fetch_Inr:
  assumes "fetchOccurrencesForSpecies remote name m = Some (Inr out, sent)"
  obtains all where "fetch_loop remote name m [] 0 [] = Some (Inr all, sent)"
    and "out = take m all"
proof (cases "fetch_loop remote name m [] 0 []")
  case None
  with assms show ?thesis by (simp add: fetchOccurrencesForSpecies_def)
next
  case (Some p)
  obtain res sent' where p: "p = (res, sent')" by (cases p)
  from fetch_result[OF Some[unfolded p]] assms
  have "(case res of Inl e \<Rightarrow> Inl e | Inr all \<Rightarrow> Inr (take m all)) = Inr out" "sent' = sent"
    by simp_all
  then obtain all where "res = Inr all" "out = take m all" "sent' = sent"
    by (cases res) simp_all
  with Some p that show ?thesis by simp
qed

lemma from_page_mono: "from_page remote name sent occ \<Longrightarrow> from_page remote name (sent @ [off]) occ"
  unfolding from_page_def by auto

lemma clean_from_page:
  assumes "remote name off = Some res" and "ok res" and "body res = Some d"
    and "occ \<in> set (clean (page_results d))"
  shows "from_page remote name (sent @ [off]) occ"
proof -
  from assms(4) obtain r where r: "r \<in> set (page_results d)" "has_coordinates r" "occ = sanitize r"
    by (auto simp: clean_def)
  from r(2) obtain a b where ab: "decimalLatitude r = JNum a" "decimalLongitude r = JNum b"
    by (auto simp: has_coordinates_def typeof_number)
  with r(3) have "decimalLatitude r = JNum (lat occ)" "decimalLongitude r = JNum (lng occ)"
    by (simp_all add: sanitize_def)
  with r(1,3) assms(1-3) show ?thesis
    unfolding from_page_def by auto
qed

lemma loop_provenance:
  assumes "fetch_loop remote name m all off sent = Some y"
  shows "(\<forall>occ \<in> set all. from_page remote name sent occ) \<longrightarrow>
         (\<forall>out. fst y = Inr out \<longrightarrow> (\<forall>occ \<in> set out. from_page remote name (snd y) occ))"
proof (rule fetch_loop.raw_induct[where P = "\<lambda>remote name m all off sent y.
          (\<forall>occ \<in> set all. from_page remote name sent occ) \<longrightarrow>
          (\<forall>out. fst y = Inr out \<longrightarrow> (\<forall>occ \<in> set out. from_page remote name (snd y) occ))",
        OF _ assms])
  fix loop :: "remote \<Rightarrow> string \<Rightarrow> nat \<Rightarrow> occurrence list \<Rightarrow> nat \<Rightarrow> nat list \<Rightarrow>
               ((error + occurrence list) \<times> nat list) option"
  fix remote name m all off sent y
  assume IH: "\<And>remote name m all off sent y. loop remote name m all off sent = Some y \<Longrightarrow>
          (\<forall>occ \<in> set all. from_page remote name sent occ) \<longrightarrow>
          (\<forall>out. fst y = Inr out \<longrightarrow> (\<forall>occ \<in> set out. from_page remote name (snd y) occ))"
  assume body: "(if length all < m then
        (case remote name off of
           None \<Rightarrow> Some (Inl FetchRejected, sent @ [off])
         | Some res \<Rightarrow>
             if \<not> ok res then Some (Inl (Error (failure_message res)), sent @ [off])
             else
               (case body res of
                  None \<Rightarrow> Some (Inl BodyRejected, sent @ [off])
                | Some d \<Rightarrow>
                    if endOfRecords d \<or> length (page_results d) = 0
                    then Some (Inr (all @ clean (page_results d)), sent @ [off])
                    else loop remote name m
                           (all @ clean (page_results d)) (off + PAGE_LIMIT) (sent @ [off])))
      else Some (Inr all, sent)) = Some y"
  show "(\<forall>occ \<in> set all. from_page remote name sent occ) \<longrightarrow>
          (\<forall>out. fst y = Inr out \<longrightarrow> (\<forall>occ \<in> set out. from_page remote name (snd y) occ))"
  proof (intro impI allI ballI)
    fix out occ
    assume inv: "\<forall>occ \<in> set all. from_page remote name sent occ"
      and out: "fst y = Inr out" and occ: "occ \<in> set out"
    show "from_page remote name (snd y) occ"
    proof (cases "length all < m")
      case False
      with body have "y = (Inr all, sent)" by simp
      with out occ inv show ?thesis by simp
    next
      case True
      show ?thesis
      proof (cases "remote name off")
        case None
        with True body have "y = (Inl FetchRejected, sent @ [off])" by simp
        with out show ?thesis by simp
      next
        case (Some res)
        show ?thesis
        proof (cases "ok res")
          case False
          with True Some body have "y = (Inl (Error (failure_message res)), sent @ [off])" by simp
          with out show ?thesis by simp
        next
          case okr: True
          show ?thesis
          proof (cases "body res")
            case None
            with True Some okr body have "y = (Inl BodyRejected, sent @ [off])" by simp
            with out show ?thesis by simp
          next
            case d: (Some d)
            have inv': "\<forall>occ \<in> set (all @ clean (page_results d)). from_page remote name (sent @ [off]) occ"
            proof
              fix occ' assume "occ' \<in> set (all @ clean (page_results d))"
              then have "occ' \<in> set all \<or> occ' \<in> set (clean (page_results d))" by simp
              then show "from_page remote name (sent @ [off]) occ'"
              proof
                assume "occ' \<in> set all"
                with inv have "from_page remote name sent occ'" by blast
                then show ?thesis by (rule from_page_mono)
              next
                assume "occ' \<in> set (clean (page_results d))"
                with Some okr d show ?thesis
                  by (rule clean_from_page[where remote=remote and name=name and off=off])
              qed
            qed
            show ?thesis
            proof (cases "endOfRecords d \<or> length (page_results d) = 0")
              case stop: True
              with True Some okr d body have "y = (Inr (all @ clean (page_results d)), sent @ [off])"
                by simp
              with out occ inv' show ?thesis by simp
            next
              case go: False
              with True Some okr d body
              have "loop remote name m (all @ clean (page_results d)) (off + PAGE_LIMIT) (sent @ [off]) = Some y"
                by simp
              from IH[where remote=remote, OF this] inv' out occ show ?thesis by blast
            qed
          qed
        qed
      qed
    qed
  qed
qed

lemma never_stops:
  assumes "0 < m" and "\<forall>j. continues_after remote name m j"
  shows "fetchOccurrencesForSpecies remote name m = None"
proof -
  have diverge: "\<not> (r = remote \<and> n = name \<and> mm = m \<and>
                   (\<exists>k. all = accumulated remote name k \<and> off = k * PAGE_LIMIT))"
    if run: "fetch_loop r n mm all off sent = Some y" for r n mm all off sent y
  proof (rule fetch_loop.raw_induct[where P = "\<lambda>r n mm all off sent y.
            \<not> (r = remote \<and> n = name \<and> mm = m \<and>
               (\<exists>k. all = accumulated remote name k \<and> off = k * PAGE_LIMIT))", OF _ run])
    fix loop :: "remote \<Rightarrow> string \<Rightarrow> nat \<Rightarrow> occurrence list \<Rightarrow> nat \<Rightarrow> nat list \<Rightarrow>
                 ((error + occurrence list) \<times> nat list) option"
    fix r n mm all off sent y
    assume IH: "\<And>r n mm all off sent y. loop r n mm all off sent = Some y \<Longrightarrow>
            \<not> (r = remote \<and> n = name \<and> mm = m \<and>
               (\<exists>k. all = accumulated remote name k \<and> off = k * PAGE_LIMIT))"
    assume body: "(if length all < mm then
        (case r n off of
           None \<Rightarrow> Some (Inl FetchRejected, sent @ [off])
         | Some res \<Rightarrow>
             if \<not> ok res then Some (Inl (Error (failure_message res)), sent @ [off])
             else
               (case body res of
                  None \<Rightarrow> Some (Inl BodyRejected, sent @ [off])
                | Some d \<Rightarrow>
                    if endOfRecords d \<or> length (page_results d) = 0
                    then Some (Inr (all @ clean (page_results d)), sent @ [off])
                    else loop r n mm
                           (all @ clean (page_results d)) (off + PAGE_LIMIT) (sent @ [off])))
      else Some (Inr all, sent)) = Some y"
    show "\<not> (r = remote \<and> n = name \<and> mm = m \<and>
               (\<exists>k. all = accumulated remote name k \<and> off = k * PAGE_LIMIT))"
    proof
      assume "r = remote \<and> n = name \<and> mm = m \<and> (\<exists>k. all = accumulated remote name k \<and> off = k * PAGE_LIMIT)"
      then obtain k where eqs: "r = remote" "n = name" "mm = m" "all = accumulated remote name k" "off = k * PAGE_LIMIT"
        by blast
      from assms(2) have cont: "continues_after remote name m k" by simp
      have below: "length (accumulated remote name k) < m"
        using accumulated_below[OF assms(1)] assms(2) by simp
      from cont obtain res d where res: "remote name (k * PAGE_LIMIT) = Some res" "ok res" "body res = Some d"
        and d: "page remote name k = Some d" and c: "\<not> endOfRecords d" "page_results d \<noteq> []"
        by (rule continues_afterD)
      from body have "loop remote name m (accumulated remote name k @ clean (page_results d))
                         (k * PAGE_LIMIT + PAGE_LIMIT) (sent @ [k * PAGE_LIMIT]) = Some y"
        unfolding eqs by (simp add: below res c)
      then have "loop remote name m (accumulated remote name (Suc k)) (Suc k * PAGE_LIMIT) (sent @ [k * PAGE_LIMIT]) = Some y"
        by (simp add: d add.commute)
      from IH[where r=remote, OF this] show False by blast
    qed
  qed
  have "fetch_loop remote name m [] 0 [] = None"
  proof (cases "fetch_loop remote name m [] 0 []")
    case (Some y)
    from diverge[OF this] have "\<not> ([] = accumulated remote name 0 \<and> (0::nat) = 0 * PAGE_LIMIT)" by blast
    then show ?thesis by simp
  qed simp
  then show ?thesis by (simp add: fetchOccurrencesForSpecies_def)
qed

section \<open>Risk tiers\<close>

text \<open>
  C1. Every cell of the result carries the tier that its report count selects, the test
  against \<open>high\<close> coming first: \<open>High\<close> when \<open>count >= high\<close>, else \<open>Medium\<close> when
  \<open>count >= medium\<close>, else \<open>Low\<close>; the count of a cell is the number of its records.
  With the thresholds 30 and 10 a cell of exactly 30 records is \<open>High\<close>, one of exactly
  10 is \<open>Medium\<close> and one of 9 is \<open>Low\<close>.
\<close>

theorem risk_tier_by_count:
  "(\<forall>c \<in> set (cells (computeGridCells occurrences cellSizeDeg th)).
      cell_count c = length (cell_samples c) \<and>
      cell_risk c =
        (if js_ge (Fin (real (cell_count c))) (high th) then High
         else if js_ge (Fin (real (cell_count c))) (medium th) then Medium
         else Low)) \<and>
   (\<forall>c \<in> set (cells (computeGridCells occurrences cellSizeDeg \<lparr>high = Fin 30, medium = Fin 10\<rparr>)).
      (cell_count c = 30 \<longrightarrow> cell_risk c = High) \<and>
      (cell_count c = 10 \<longrightarrow> cell_risk c = Medium) \<and>
      (cell_count c = 9 \<longrightarrow> cell_risk c = Low))"
proof (intro conjI ballI)
  fix c assume "c \<in> set (cells (computeGridCells occurrences cellSizeDeg th))"
  then show "cell_count c = length (cell_samples c)"
    and "cell_risk c =
        (if js_ge (Fin (real (cell_count c))) (high th) then High
         else if js_ge (Fin (real (cell_count c))) (medium th) then Medium
         else Low)"
    by (rule cell_samples_filter)+
next
  fix c assume c: "c \<in> set (cells (computeGridCells occurrences cellSizeDeg \<lparr>high = Fin 30, medium = Fin 10\<rparr>))"
  show "cell_count c = 30 \<longrightarrow> cell_risk c = High"
    using cell_samples_filter(3)[OF c] by simp
  show "cell_count c = 10 \<longrightarrow> cell_risk c = Medium"
    using cell_samples_filter(3)[OF c] by simp
  show "cell_count c = 9 \<longrightarrow> cell_risk c = Low"
    using cell_samples_filter(3)[OF c] by simp
qed

theorem risk_tier_by_count_witness:
  "tier_cells ! 0 \<in> set tier_cells \<and> cell_count (tier_cells ! 0) = 30 \<and>
     cell_risk (tier_cells ! 0) = High \<and>
   tier_cells ! 1 \<in> set tier_cells \<and> cell_count (tier_cells ! 1) = 10 \<and>
     cell_risk (tier_cells ! 1) = Medium \<and>
   tier_cells ! 2 \<in> set tier_cells \<and> cell_count (tier_cells ! 2) = 9 \<and>
     cell_risk (tier_cells ! 2) = Low"
proof -
  have counts: "map cell_count tier_cells = [30, 10, 9]" by code_simp
  then have len: "length tier_cells = 3" by (metis length_map length_Cons list.size(3) numeral_3_eq_3)
  have mem: "tier_cells ! 0 \<in> set tier_cells" "tier_cells ! 1 \<in> set tier_cells"
    "tier_cells ! 2 \<in> set tier_cells"
    using len by simp_all
  have c: "cell_count (tier_cells ! 0) = 30" "cell_count (tier_cells ! 1) = 10"
    "cell_count (tier_cells ! 2) = 9"
    using nth_map[of 0 tier_cells cell_count] nth_map[of 1 tier_cells cell_count]
      nth_map[of 2 tier_cells cell_count] len
    by (simp_all add: counts)
  have "\<forall>c \<in> set tier_cells.
      (cell_count c = 30 \<longrightarrow> cell_risk c = High) \<and>
      (cell_count c = 10 \<longrightarrow> cell_risk c = Medium) \<and>
      (cell_count c = 9 \<longrightarrow> cell_risk c = Low)"
    using risk_tier_by_count[of tier_input "Fin 1" "\<lparr>high = Fin 30, medium = Fin 10\<rparr>"]
    unfolding tier_cells_def by blast
  with mem c show ?thesis by blast
qed

section \<open>Summary\<close>

text \<open>
  C2. For every record list, cell size and thresholds, the three tier counts of the
  summary add up to its cell count, and the counts of the cells add up to its total
  number of records.
\<close>

theorem summary_consistent:
  "highCount (summary (computeGridCells occurrences cellSizeDeg th)) +
   medCount (summary (computeGridCells occurrences cellSizeDeg th)) +
   lowCount (summary (computeGridCells occurrences cellSizeDeg th)) =
   cellCount (summary (computeGridCells occurrences cellSizeDeg th)) \<and>
   sum_list (map cell_count (cells (computeGridCells occurrences cellSizeDeg th))) =
   totalRecords (summary (computeGridCells occurrences cellSizeDeg th))"
  by (simp add: computeGridCells_eq tier_partition cell_count_out sum_build_grid comp_def)

theorem summary_consistent_witness:
  "highCount (summary (computeGridCells mixed_input (Fin 1) INVASIVENESS_THRESHOLDS)) +
   medCount (summary (computeGridCells mixed_input (Fin 1) INVASIVENESS_THRESHOLDS)) +
   lowCount (summary (computeGridCells mixed_input (Fin 1) INVASIVENESS_THRESHOLDS)) = 2 \<and>
   sum_list (map cell_count (cells (computeGridCells mixed_input (Fin 1) INVASIVENESS_THRESHOLDS))) = 3"
proof -
  have "cellCount (summary (computeGridCells mixed_input (Fin 1) INVASIVENESS_THRESHOLDS)) = 2"
    "totalRecords (summary (computeGridCells mixed_input (Fin 1) INVASIVENESS_THRESHOLDS)) = 3"
    by code_simp+
  with summary_consistent[of mixed_input "Fin 1" INVASIVENESS_THRESHOLDS] show ?thesis by simp
qed

section \<open>Record cap\<close>

text \<open>
  C3. A list returned by \<^verbatim>\<open>fetchOccurrencesForSpecies\<close> has at most \<open>maxRecords\<close> elements:
  it is the list accumulated by the loop cut to its first \<open>maxRecords\<close> elements, also
  when the last page went over the cap and the source had more to send.
\<close>

theorem record_cap:
  assumes "fetchOccurrencesForSpecies remote scientificName maxRecords = Some (Inr out, sent)"
  shows "length out \<le> maxRecords \<and>
         (\<exists>all. fetch_loop remote scientificName maxRecords [] 0 [] = Some (Inr all, sent) \<and>
                out = take maxRecords all)"
proof -
  from assms obtain all where
    "fetch_loop remote scientificName maxRecords [] 0 [] = Some (Inr all, sent)"
    and "out = take maxRecords all" by (rule fetch_Inr)
  then show ?thesis by auto
qed

theorem record_cap_witness:
  "fetchOccurrencesForSpecies endless ''Strongylocentrotus purpuratus'' 2 =
     Some (Inr [sanitize located, sanitize located], [0]) \<and>
   fetch_loop endless ''Strongylocentrotus purpuratus'' 2 [] 0 [] =
     Some (Inr [sanitize located, sanitize located, sanitize located], [0]) \<and>
   length [sanitize located, sanitize located] \<le> (2::nat)"
proof -
  have run: "fetchOccurrencesForSpecies endless ''Strongylocentrotus purpuratus'' 2 =
     Some (Inr [sanitize located, sanitize located], [0])"
    by code_simp
  have loop: "fetch_loop endless ''Strongylocentrotus purpuratus'' 2 [] 0 [] =
     Some (Inr [sanitize located, sanitize located, sanitize located], [0])"
    by code_simp
  from record_cap[OF run] run loop show ?thesis by simp
qed

section \<open>Coordinate filter\<close>

text \<open>
  C4, as the code has it. When the pages of a run are all fetched, the list returned by
  \<^verbatim>\<open>fetchOccurrencesForSpecies\<close> is made of the sanitized forms, in the order received, of
  exactly those raw records of the fetched pages whose \<^verbatim>\<open>decimalLatitude\<close> and
  \<^verbatim>\<open>decimalLongitude\<close> are both numbers, cut to its first \<open>maxRecords\<close> elements. A record
  lacking either contributes nothing and does not fail the fetch; a record with both is
  returned unless it lies beyond the cap.
\<close>

theorem sanitized_output:
  assumes "0 < maxRecords"
    and "\<forall>j<k. continues_after remote scientificName maxRecords j"
    and "stops_after remote scientificName maxRecords k"
  shows "fetchOccurrencesForSpecies remote scientificName maxRecords =
         Some (Inr (take maxRecords
                      (map sanitize
                         (filter numeric_coordinates (raw_records remote scientificName (Suc k))))),
               offsets (Suc k))"
proof -
  have "fetch_loop remote scientificName maxRecords [] 0 [] =
        Some (Inr (accumulated remote scientificName (Suc k)), offsets (Suc k))"
    using loop_prefix[OF assms(1,2)] loop_stop[OF accumulated_below[OF assms(1,2)] assms(3)]
    by simp
  from fetch_result[OF this]
  have "fetchOccurrencesForSpecies remote scientificName maxRecords =
        Some (Inr (take maxRecords (accumulated remote scientificName (Suc k))), offsets (Suc k))"
    by simp
  then show ?thesis by (simp only: accumulated_raw clean_numeric)
qed

theorem sanitized_output_witness:
  "(0::nat) < MAX_PER_SPECIES \<and>
   stops_after with_gap ''Centrostephanus rodgersii'' MAX_PER_SPECIES 0 \<and>
   raw_records with_gap ''Centrostephanus rodgersii'' (Suc 0) =
     [keyed 1, raw_point JNull (JNum (Fin 1)), keyed 2] \<and>
   fetchOccurrencesForSpecies with_gap ''Centrostephanus rodgersii'' MAX_PER_SPECIES =
     Some (Inr [sanitize (keyed 1), sanitize (keyed 2)], [0])"
proof -
  have h1: "(0::nat) < MAX_PER_SPECIES" by (simp add: MAX_PER_SPECIES_def)
  have h2: "\<forall>j<0. continues_after with_gap ''Centrostephanus rodgersii'' MAX_PER_SPECIES j"
    by simp
  have h3: "stops_after with_gap ''Centrostephanus rodgersii'' MAX_PER_SPECIES 0"
    by code_simp
  have r: "raw_records with_gap ''Centrostephanus rodgersii'' (Suc 0) =
     [keyed 1, raw_point JNull (JNum (Fin 1)), keyed 2]"
    by code_simp
  have f: "take MAX_PER_SPECIES (map sanitize (filter numeric_coordinates
             [keyed 1, raw_point JNull (JNum (Fin 1)), keyed 2])) =
           [sanitize (keyed 1), sanitize (keyed 2)]"
    by code_simp
  have o: "offsets (Suc 0) = [0]" by code_simp
  from sanitized_output[OF h1 h2 h3]
  have "fetchOccurrencesForSpecies with_gap ''Centrostephanus rodgersii'' MAX_PER_SPECIES =
     Some (Inr [sanitize (keyed 1), sanitize (keyed 2)], [0])"
    unfolding r f o .
  with h1 h3 r show ?thesis by simp
qed

text \<open>
  C4 as it is worded has every record with numeric coordinates in the output. The cut to
  \<open>maxRecords\<close> drops those beyond the cap: of three such records on the only page, the
  third is not returned when \<open>maxRecords\<close> is 2.
\<close>

theorem cap_drops_numeric_counterexample:
  "page three_numeric ''Strongylocentrotus purpuratus'' 0 =
     Some \<lparr>results = Some [keyed 1, keyed 2, keyed 3], endOfRecords = True\<rparr> \<and>
   typeof (decimalLatitude (keyed 3)) = TNumber \<and>
   typeof (decimalLongitude (keyed 3)) = TNumber \<and>
   fetchOccurrencesForSpecies three_numeric ''Strongylocentrotus purpuratus'' 2 =
     Some (Inr [sanitize (keyed 1), sanitize (keyed 2)], [0]) \<and>
   sanitize (keyed 3) \<notin> set [sanitize (keyed 1), sanitize (keyed 2)]"
  by code_simp

section \<open>Coordinates of the returned records\<close>

text \<open>
  C5, as the code has it. Every record returned by \<^verbatim>\<open>fetchOccurrencesForSpecies\<close> is the
  sanitized form of a raw record of a successfully fetched page whose \<^verbatim>\<open>decimalLatitude\<close>
  and \<^verbatim>\<open>decimalLongitude\<close> are both numbers, and its \<open>lat\<close> and \<open>lng\<close> are those two
  numbers: never null or missing, and finite whenever the numbers of the source are.
\<close>

theorem output_coordinates_numeric:
  assumes "fetchOccurrencesForSpecies remote scientificName maxRecords = Some (Inr out, sent)"
  shows "\<forall>occ \<in> set out.
           \<exists>off \<in> set sent. \<exists>res d.
             remote scientificName off = Some res \<and> ok res \<and> body res = Some d \<and>
             (\<exists>r \<in> set (page_results d).
                decimalLatitude r = JNum (lat occ) \<and> decimalLongitude r = JNum (lng occ) \<and>
                occ = sanitize r)"
proof -
  from assms obtain all where
    run: "fetch_loop remote scientificName maxRecords [] 0 [] = Some (Inr all, sent)"
    and out: "out = take maxRecords all" by (rule fetch_Inr)
  from loop_provenance[OF run] have "\<forall>occ \<in> set all. from_page remote scientificName sent occ"
    by simp
  moreover have "set out \<subseteq> set all" unfolding out by (rule set_take_subset)
  ultimately have "\<forall>occ \<in> set out. from_page remote scientificName sent occ" by blast
  then show ?thesis unfolding from_page_def .
qed

theorem output_coordinates_numeric_witness:
  "fetchOccurrencesForSpecies one_page ''Centrostephanus rodgersii'' 3 =
     Some (Inr (replicate 3 (sanitize located)), [0]) \<and>
   (\<exists>off \<in> set [0]. \<exists>res d.
      one_page ''Centrostephanus rodgersii'' off = Some res \<and> ok res \<and> body res = Some d \<and>
      (\<exists>r \<in> set (page_results d).
         decimalLatitude r = JNum (lat (sanitize located)) \<and>
         decimalLongitude r = JNum (lng (sanitize located)) \<and>
         sanitize located = sanitize r))"
proof -
  have run: "fetchOccurrencesForSpecies one_page ''Centrostephanus rodgersii'' 3 =
     Some (Inr (replicate 3 (sanitize located)), [0])"
    by code_simp
  have "sanitize located \<in> set (replicate 3 (sanitize located))" by simp
  with output_coordinates_numeric[OF run] run show ?thesis by blast
qed

text \<open>
  C5 as it is worded asks for finite coordinates. The test of the code is
  \<^verbatim>\<open>typeof ... === "number"\<close>, which the infinities and NaN pass: a record whose latitude
  is \<^verbatim>\<open>Infinity\<close> is returned.
\<close>

theorem output_not_finite_counterexample:
  "fetchOccurrencesForSpecies overflowing ''Strongylocentrotus purpuratus'' MAX_PER_SPECIES =
     Some (Inr [sanitize (raw_point (JNum PosInf) (JNum (Fin 10)))], [0]) \<and>
   lat (sanitize (raw_point (JNum PosInf) (JNum (Fin 10)))) = PosInf \<and>
   \<not> is_finite (lat (sanitize (raw_point (JNum PosInf) (JNum (Fin 10)))))"
proof -
  have "fetchOccurrencesForSpecies overflowing ''Strongylocentrotus purpuratus'' MAX_PER_SPECIES =
     Some (Inr [sanitize (raw_point (JNum PosInf) (JNum (Fin 10)))], [0])"
    by code_simp
  then show ?thesis by (simp add: sanitize_def raw_point_def is_finite_def)
qed

section \<open>Cell assignment\<close>

text \<open>
  C6, as the code has it. For a positive cell size \<open>s\<close> and a record at the finite
  coordinates \<open>(a, b)\<close>, let \<open>p\<close> and \<open>q\<close> be the binary64 quotients \<open>a / s\<close> and \<open>b / s\<close>
  that the program computes, when they are finite. The record is among the samples of a
  cell whose indices are \<open>\<lfloor>p\<rfloor>\<close> and \<open>\<lfloor>q\<rfloor>\<close>, the floor rounding towards minus infinity:
  the centre of the cell is the binary64 value of \<open>(\<lfloor>p\<rfloor> + 0.5) * s\<close> and of
  \<open>(\<lfloor>q\<rfloor> + 0.5) * s\<close>, and its key is made of the two indices in decimal when these are
  at most \<open>2 ^ 53\<close> in magnitude. Where the quotient is itself a binary64 number, as with
  the cell size 1, \<open>p\<close> is the exact quotient: \<open>(35.4, -120.9)\<close> is in the cell
  \<open>(35, -121)\<close>.
\<close>

theorem cell_assignment_floor:
  assumes "0 < s" and "x \<in> set occurrences" and "lat x = Fin a" and "lng x = Fin b"
    and "fl (a / s) = Fin p" and "fl (b / s) = Fin q"
  shows "\<exists>c \<in> set (cells (computeGridCells occurrences (Fin s) th)).
           x \<in> set (cell_samples c) \<and>
           cell_lat c = js_mul (js_add (Fin (of_int \<lfloor>p\<rfloor>)) (Fin 0.5)) (Fin s) \<and>
           cell_lng c = js_mul (js_add (Fin (of_int \<lfloor>q\<rfloor>)) (Fin 0.5)) (Fin s) \<and>
           (\<bar>\<lfloor>p\<rfloor>\<bar> \<le> 2 ^ 53 \<and> \<bar>\<lfloor>q\<rfloor>\<bar> \<le> 2 ^ 53 \<longrightarrow>
              cell_id c = show_int \<lfloor>p\<rfloor> @ ''_'' @ show_int \<lfloor>q\<rfloor>)"
proof -
  from assms(2) have "cell_key (Fin s) x \<in> fst ` set (build_grid (Fin s) occurrences)"
    by (simp add: grid_keys)
  then obtain e where e: "e \<in> set (build_grid (Fin s) occurrences)" and k: "fst e = cell_key (Fin s) x"
    by auto
  from grid_entry[OF e] obtain y where
    samp: "samples (snd e) = filter (\<lambda>z. cell_key (Fin s) z = fst e) occurrences" and
    y: "cell_key (Fin s) y = fst e" "latIdx (snd e) = js_floor (js_div (lat y) (Fin s))"
       "lngIdx (snd e) = js_floor (js_div (lng y) (Fin s))"
    by (auto simp: entry_of_def)
  have quot: "js_div (lat x) (Fin s) = Fin p" "js_div (lng x) (Fin s) = Fin q"
    using assms(1,3-6) by simp_all
  from y(1) k have "cell_key (Fin s) y = cell_key (Fin s) x" by simp
  from cell_key_inj[OF this] y(2,3)
  have idx: "latIdx (snd e) = Fin (of_int \<lfloor>p\<rfloor>)" "lngIdx (snd e) = Fin (of_int \<lfloor>q\<rfloor>)"
    by (simp_all add: quot)
  have key: "cell_key (Fin s) x = show_int \<lfloor>p\<rfloor> @ ''_'' @ show_int \<lfloor>q\<rfloor>"
    by (simp add: cell_key_def quot)
  let ?c = "out_cell (Fin s) th e"
  have "?c \<in> set (cells (computeGridCells occurrences (Fin s) th))"
    using e by (simp add: cells_eq)
  moreover have "x \<in> set (cell_samples ?c)"
    using assms(2) k by (simp add: out_cell_def samp)
  moreover have "cell_id ?c = show_int \<lfloor>p\<rfloor> @ ''_'' @ show_int \<lfloor>q\<rfloor>"
    using k key by (simp add: out_cell_def)
  moreover have "cell_lat ?c = js_mul (js_add (Fin (of_int \<lfloor>p\<rfloor>)) (Fin 0.5)) (Fin s)"
    "cell_lng ?c = js_mul (js_add (Fin (of_int \<lfloor>q\<rfloor>)) (Fin 0.5)) (Fin s)"
    by (simp_all only: out_cell_def idx gridcell.simps snd_conv)
  ultimately show ?thesis by blast
qed

theorem cell_assignment_floor_witness:
  "(0::real) < 1 \<and> coast \<in> set [coast] \<and>
   lat coast = Fin (double 35.4) \<and> lng coast = Fin (double (- 120.9)) \<and>
   fl (double 35.4 / 1) = Fin (double 35.4) \<and>
   fl (double (- 120.9) / 1) = Fin (double (- 120.9)) \<and>
   \<lfloor>double 35.4\<rfloor> = 35 \<and> \<lfloor>double (- 120.9)\<rfloor> = - 121 \<and>
   (\<exists>c \<in> set (cells (computeGridCells [coast] (Fin 1) INVASIVENESS_THRESHOLDS)).
      coast \<in> set (cell_samples c) \<and> cell_lat c = Fin 35.5 \<and> cell_lng c = Fin (- 120.5) \<and>
      cell_id c = ''35_-121'')"
proof -
  have h: "(0::real) < 1" "coast \<in> set [coast]"
    "lat coast = Fin (double 35.4)" "lng coast = Fin (double (- 120.9))"
    by (simp_all add: coast_def point_def)
  have r: "fl (double 35.4 / 1) = Fin (double 35.4)"
    "fl (double (- 120.9) / 1) = Fin (double (- 120.9))"
    by code_simp+
  have f: "\<lfloor>double 35.4\<rfloor> = 35" "\<lfloor>double (- 120.9)\<rfloor> = - 121"
    by code_simp+
  have k: "show_int 35 = ''35''" "show_int (- 121) = ''-121''"
    by (simp_all add: show_int_def digits.simps digit_char_def)
  have m: "js_mul (js_add (Fin (of_int 35)) (Fin 0.5)) (Fin 1) = Fin 35.5"
    "js_mul (js_add (Fin (of_int (- 121))) (Fin 0.5)) (Fin 1) = Fin (- 120.5)"
    by code_simp+
  from cell_assignment_floor[OF h r, of INVASIVENESS_THRESHOLDS, unfolded f m k]
  have "\<exists>c \<in> set (cells (computeGridCells [coast] (Fin 1) INVASIVENESS_THRESHOLDS)).
      coast \<in> set (cell_samples c) \<and> cell_lat c = Fin 35.5 \<and> cell_lng c = Fin (- 120.5) \<and>
      cell_id c = ''35_-121''"
    by simp
  with h r f show ?thesis by simp
qed

text \<open>
  C6 as it is worded takes the floor of the quotient itself. The quotient the program
  floors is rounded to binary64 first, and the two floors can differ: the binary64 numbers
  \<^verbatim>\<open>0.03\<close> and \<^verbatim>\<open>0.01\<close> have a quotient just below 3, whose floor is 2, and the program
  puts the record in the cell of index 3.
\<close>

theorem exact_floor_counterexample:
  "(0::real) < double 0.01 \<and>
   lat fine_point = Fin (double 0.03) \<and> lng fine_point = Fin (double 0.03) \<and>
   \<lfloor>double 0.03 / double 0.01\<rfloor> = 2 \<and>
   map cell_id (cells (computeGridCells [fine_point] (Fin (double 0.01)) INVASIVENESS_THRESHOLDS)) =
     [''3_3'']"
  by code_simp

section \<open>Failed requests\<close>

text \<open>
  C7. When the pages before page \<open>k\<close> all succeed without ending the pagination and the
  request for page \<open>k\<close> gets a response that is not ok, the fetch ends with the error whose
  message holds the status and the status text of that response; no list is returned,
  and the requests sent are those of the pages 0 to \<open>k\<close>, each once, the failed one
  last.
\<close>

theorem failure_is_immediate:
  assumes "0 < maxRecords"
    and "\<forall>j<k. continues_after remote scientificName maxRecords j"
    and "remote scientificName (k * PAGE_LIMIT) = Some res" and "\<not> ok res"
  shows "fetchOccurrencesForSpecies remote scientificName maxRecords =
           Some (Inl (Error (''GBIF request failed ('' @ show_int (int (status res)) @ ''): '' @
                             statusText res)),
                 offsets (Suc k)) \<and>
         distinct (offsets (Suc k)) \<and> last (offsets (Suc k)) = k * PAGE_LIMIT"
proof -
  have "fetch_loop remote scientificName maxRecords [] 0 [] =
        Some (Inl (Error (failure_message res)), offsets (Suc k))"
    using loop_prefix[OF assms(1,2)] loop_fail[OF accumulated_below[OF assms(1,2)] assms(3,4)]
    by simp
  from fetch_result[OF this]
  have "fetchOccurrencesForSpecies remote scientificName maxRecords =
           Some (Inl (Error (''GBIF request failed ('' @ show_int (int (status res)) @ ''): '' @
                             statusText res)), offsets (Suc k))"
    by (simp add: failure_message_def)
  moreover have "last (offsets (Suc k)) = k * PAGE_LIMIT"
    by (simp add: offsets_Suc)
  ultimately show ?thesis using distinct_offsets by simp
qed

theorem failure_is_immediate_witness:
  "(0::nat) < MAX_PER_SPECIES \<and>
   continues_after failing_second ''Strongylocentrotus droebachiensis'' MAX_PER_SPECIES 0 \<and>
   failing_second ''Strongylocentrotus droebachiensis'' (1 * PAGE_LIMIT) = Some unavailable \<and>
   \<not> ok unavailable \<and>
   fetchOccurrencesForSpecies failing_second ''Strongylocentrotus droebachiensis'' MAX_PER_SPECIES =
     Some (Inl (Error ''GBIF request failed (503): Service Unavailable''), [0, 300])"
proof -
  have h1: "(0::nat) < MAX_PER_SPECIES" by (simp add: MAX_PER_SPECIES_def)
  have c0: "continues_after failing_second ''Strongylocentrotus droebachiensis'' MAX_PER_SPECIES 0"
    by code_simp
  then have h2: "\<forall>j<1. continues_after failing_second ''Strongylocentrotus droebachiensis'' MAX_PER_SPECIES j"
    by simp
  have h3: "failing_second ''Strongylocentrotus droebachiensis'' (1 * PAGE_LIMIT) = Some unavailable"
    by (simp add: failing_second_def PAGE_LIMIT_def)
  have h4: "\<not> ok unavailable" by (simp add: unavailable_def)
  have m: "show_int (int (status unavailable)) = ''503''" by code_simp
  have o: "offsets (Suc 1) = [0, 300]" by code_simp
  from failure_is_immediate[OF h1 h2 h3 h4]
  have "fetchOccurrencesForSpecies failing_second ''Strongylocentrotus droebachiensis'' MAX_PER_SPECIES =
     Some (Inl (Error ''GBIF request failed (503): Service Unavailable''), [0, 300])"
    unfolding m o by (simp add: unavailable_def)
  with h1 c0 h3 h4 show ?thesis by simp
qed

section \<open>End of the pagination\<close>

text \<open>
  C8. The pagination stops after the first page at which the accumulated count has
  reached \<open>maxRecords\<close>, or the source signals the end of the records, or the page has no
  raw result: if that page is page \<open>k\<close>, exactly the requests for the pages 0 to \<open>k\<close> are
  sent and the records accumulated over them, cut to \<open>maxRecords\<close>, are returned. A
  source with one page of ten records marked as the last gets one request, and the ten
  records are returned.
\<close>

theorem pagination_stops:
  assumes "0 < maxRecords"
    and "\<forall>j<k. continues_after remote scientificName maxRecords j"
    and "stops_after remote scientificName maxRecords k"
  shows "fetchOccurrencesForSpecies remote scientificName maxRecords =
         Some (Inr (take maxRecords (accumulated remote scientificName (Suc k))), offsets (Suc k))"
proof -
  have "fetch_loop remote scientificName maxRecords [] 0 [] =
        Some (Inr (accumulated remote scientificName (Suc k)), offsets (Suc k))"
    using loop_prefix[OF assms(1,2)] loop_stop[OF accumulated_below[OF assms(1,2)] assms(3)]
    by simp
  from fetch_result[OF this] show ?thesis by simp
qed

theorem pagination_stops_witness:
  "(0::nat) < MAX_PER_SPECIES \<and>
   stops_after one_page ''Strongylocentrotus purpuratus'' MAX_PER_SPECIES 0 \<and>
   fetchOccurrencesForSpecies one_page ''Strongylocentrotus purpuratus'' MAX_PER_SPECIES =
     Some (Inr (replicate 10 (sanitize located)), [0])"
proof -
  have h1: "(0::nat) < MAX_PER_SPECIES" by (simp add: MAX_PER_SPECIES_def)
  have h2: "\<forall>j<0. continues_after one_page ''Strongylocentrotus purpuratus'' MAX_PER_SPECIES j"
    by simp
  have h3: "stops_after one_page ''Strongylocentrotus purpuratus'' MAX_PER_SPECIES 0"
    by code_simp
  have a: "take MAX_PER_SPECIES (accumulated one_page ''Strongylocentrotus purpuratus'' (Suc 0)) =
     replicate 10 (sanitize located)"
    by code_simp
  have o: "offsets (Suc 0) = [0]" by code_simp
  from pagination_stops[OF h1 h2 h3]
  have "fetchOccurrencesForSpecies one_page ''Strongylocentrotus purpuratus'' MAX_PER_SPECIES =
     Some (Inr (replicate 10 (sanitize located)), [0])"
    unfolding a o .
  with h1 h3 show ?thesis by simp
qed

section \<open>Repeatability\<close>

text \<open>
  C9. Run on a store in which the input array is allocated, \<^verbatim>\<open>computeGridCells\<close> returns
  cells and a summary whose content is a function of the elements of the input array, the
  cell size and the thresholds alone; a second run on the store the first one left
  returns the same content, leaves the result of the first run as it was, and neither run
  changes the input array or any other array that was allocated before.
\<close>

theorem computeGridCells_repeatable:
  assumes "occurrences < fresh h"
    and "computeGridCells_store h occurrences cellSizeDeg th = (r1, h1)"
    and "computeGridCells_store h1 occurrences cellSizeDeg th = (r2, h2)"
  shows "contents h1 r1 = computeGridCells (arrays h occurrences) cellSizeDeg th \<and>
         contents h2 r2 = contents h1 r1 \<and>
         contents h2 r1 = contents h1 r1 \<and>
         arrays h1 occurrences = arrays h occurrences \<and>
         arrays h2 occurrences = arrays h occurrences \<and>
         (\<forall>b < fresh h. arrays h2 b = arrays h b)"
proof -
  note first = computeGridCells_store_refines[OF assms(1,2)]
  from first(3) assms(1) have a1: "occurrences < fresh h1" by simp
  note second = computeGridCells_store_refines[OF a1 assms(3)]
  from first(2) assms(1) have in1: "arrays h1 occurrences = arrays h occurrences" by simp
  from second(2) a1 in1 have in2: "arrays h2 occurrences = arrays h occurrences" by simp
  have keep: "\<forall>b < fresh h. arrays h2 b = arrays h b"
    using first(2,3) second(2) by auto
  have "contents h2 r1 = contents h1 r1"
    by (rule contents_cong) (use first(4) second(2) in auto)
  moreover have "contents h2 r2 = contents h1 r1"
    by (simp add: first(1) second(1) in1)
  ultimately show ?thesis using first(1) in1 in2 keep by simp
qed

theorem computeGridCells_repeatable_witness:
  "0 < fresh example_store \<and>
   contents (snd first_run) (fst first_run) =
     computeGridCells mixed_input (Fin 1) INVASIVENESS_THRESHOLDS \<and>
   contents (snd second_run) (fst second_run) = contents (snd first_run) (fst first_run) \<and>
   arrays (snd second_run) 0 = mixed_input"
  using computeGridCells_repeatable[of 0 example_store "Fin 1" INVASIVENESS_THRESHOLDS
      "fst first_run" "snd first_run" "fst second_run" "snd second_run"]
  by (simp add: first_run_def second_run_def example_store_def)

section \<open>Samples\<close>

text \<open>
  C10. The cells have distinct keys; the samples of a cell are the input records with the
  key of the cell, in the order of the input, and its count is their number; so every
  input record is among the samples of exactly one cell, and the samples of all cells
  together are as many as the input records.
\<close>

theorem samples_partition_input:
  "distinct (map cell_id (cells (computeGridCells occurrences cellSizeDeg th))) \<and>
   (\<forall>c \<in> set (cells (computeGridCells occurrences cellSizeDeg th)).
      cell_samples c = filter (\<lambda>x. cell_key cellSizeDeg x = cell_id c) occurrences \<and>
      cell_count c = length (cell_samples c)) \<and>
   (\<forall>x \<in> set occurrences.
      \<exists>!c. c \<in> set (cells (computeGridCells occurrences cellSizeDeg th)) \<and> x \<in> set (cell_samples c)) \<and>
   length (concat (map cell_samples (cells (computeGridCells occurrences cellSizeDeg th)))) =
     length occurrences"
proof (intro conjI ballI)
  show d: "distinct (map cell_id (cells (computeGridCells occurrences cellSizeDeg th)))"
    by (simp only: cell_ids grid_distinct)
  {
    fix x assume x: "x \<in> set occurrences"
    then have "cell_key cellSizeDeg x \<in> fst ` set (build_grid cellSizeDeg occurrences)"
      by (simp add: grid_keys)
    then have "cell_key cellSizeDeg x \<in> set (map cell_id (cells (computeGridCells occurrences cellSizeDeg th)))"
      by (simp only: cell_ids set_map)
    then obtain c where c: "c \<in> set (cells (computeGridCells occurrences cellSizeDeg th))"
      and idc: "cell_id c = cell_key cellSizeDeg x" by auto
    have inc: "x \<in> set (cell_samples c)"
      using x idc by (simp add: cell_samples_filter(1)[OF c])
    show "\<exists>!c. c \<in> set (cells (computeGridCells occurrences cellSizeDeg th)) \<and> x \<in> set (cell_samples c)"
    proof (rule ex1I[of _ c])
      show "c \<in> set (cells (computeGridCells occurrences cellSizeDeg th)) \<and> x \<in> set (cell_samples c)"
        using c inc by simp
    next
      fix c' assume c': "c' \<in> set (cells (computeGridCells occurrences cellSizeDeg th)) \<and> x \<in> set (cell_samples c')"
      then have "cell_id c' = cell_key cellSizeDeg x"
        using cell_samples_filter(1)[of c' occurrences cellSizeDeg th] by auto
      with idc have "cell_id c' = cell_id c" by simp
      moreover have "inj_on cell_id (set (cells (computeGridCells occurrences cellSizeDeg th)))"
        using d by (simp add: distinct_map)
      ultimately show "c' = c" using c c' by (auto dest: inj_onD)
    qed
  }
  {
    fix c assume c: "c \<in> set (cells (computeGridCells occurrences cellSizeDeg th))"
    show "cell_samples c = filter (\<lambda>x. cell_key cellSizeDeg x = cell_id c) occurrences"
      and "cell_count c = length (cell_samples c)"
      using cell_samples_filter(1,2)[OF c] by simp_all
  }
  have "length (concat (map cell_samples (cells (computeGridCells occurrences cellSizeDeg th)))) =
        sum_list (map (\<lambda>c. length (cell_samples c)) (cells (computeGridCells occurrences cellSizeDeg th)))"
    by (simp add: length_concat comp_def)
  also have "\<dots> = sum_list (map cell_count (cells (computeGridCells occurrences cellSizeDeg th)))"
    by (rule arg_cong[of _ _ sum_list], rule map_cong[OF refl]) (simp add: cell_samples_filter(2))
  also have "\<dots> = length occurrences"
    by (simp add: cells_eq cell_count_out comp_def sum_build_grid)
  finally show "length (concat (map cell_samples (cells (computeGridCells occurrences cellSizeDeg th)))) =
     length occurrences" .
qed

theorem samples_partition_input_witness:
  "mixed_cells ! 0 \<in> set mixed_cells \<and>
   cell_samples (mixed_cells ! 0) = [point 35.4 (-120.9), point 35.7 (-120.2)] \<and>
   cell_count (mixed_cells ! 0) = 2 \<and>
   point 36.2 (-120.9) \<in> set mixed_input \<and>
   (\<exists>!c. c \<in> set mixed_cells \<and> point 36.2 (-120.9) \<in> set (cell_samples c))"
proof -
  have len: "length mixed_cells = 2" by code_simp
  then have mem: "mixed_cells ! 0 \<in> set mixed_cells" by simp
  have key: "cell_id (mixed_cells ! 0) = ''35_-121''" by code_simp
  have sel: "filter (\<lambda>x. cell_key (Fin 1) x = ''35_-121'') mixed_input =
             [point 35.4 (-120.9), point 35.7 (-120.2)]"
    by code_simp
  have inp: "point 36.2 (-120.9) \<in> set mixed_input" by (simp add: mixed_input_def)
  note part = samples_partition_input[of mixed_input "Fin 1" INVASIVENESS_THRESHOLDS,
      folded mixed_cells_def]
  from part mem have "cell_samples (mixed_cells ! 0) =
      filter (\<lambda>x. cell_key (Fin 1) x = cell_id (mixed_cells ! 0)) mixed_input"
    "cell_count (mixed_cells ! 0) = length (cell_samples (mixed_cells ! 0))"
    by blast+
  then have "cell_samples (mixed_cells ! 0) = [point 35.4 (-120.9), point 35.7 (-120.2)]"
    "cell_count (mixed_cells ! 0) = 2"
    by (simp_all add: key sel)
  moreover from part inp
  have "\<exists>!c. c \<in> set mixed_cells \<and> point 36.2 (-120.9) \<in> set (cell_samples c)"
    by blast
  ultimately show ?thesis using mem inp by simp
qed

end
